theory Spec2Isabelle
  imports Main "HOL-Library.Multiset"
begin

section \<open>The provider registry and loader of package \<open>provider\<close>\<close>

text \<open>
  A shallow embedding of \<^verbatim>\<open>src/provider/provider.go\<close> and \<^verbatim>\<open>src/provider/types.go\<close>.

  Providers are opaque to the loader: it sees them only through the interfaces of
  \<^verbatim>\<open>types.go\<close>. A provider is therefore a record of its methods. The callbacks
  \<^verbatim>\<open>Register\<close>, \<^verbatim>\<open>Boot\<close> and \<^verbatim>\<open>Configure\<close> are external code with side effects on the host
  application (and on the provider itself); they are functions on an abstract world \<open>'w\<close>
  (everything reachable from \<^verbatim>\<open>app\<close> and the providers) that return Go's \<^verbatim>\<open>error\<close>
  (\<open>None\<close> is \<^verbatim>\<open>nil\<close>) and the new world. The optional interfaces \<^verbatim>\<open>ConfigurableProvider\<close>,
  \<^verbatim>\<open>PriorityProvider\<close> and \<^verbatim>\<open>OptionalProvider\<close> are optional fields: \<open>None\<close> is a failed
  type assertion. \<^verbatim>\<open>Name()\<close>, \<^verbatim>\<open>Priority()\<close> and \<^verbatim>\<open>IsOptional()\<close> are taken to be constant
  for a provider. The diagnostic \<^verbatim>\<open>fmt.Printf\<close> lines are not modelled.

  The loader is embedded twice. In \<open>LoadProviders\<close> the callbacks act on the world behind
  \<^verbatim>\<open>app\<close> only and every call is recorded; the order of the calls and the handling of
  failures are proved of it. In \<open>LoadProvidersShared\<close> the callbacks also reach the loader and
  the registry, as Go allows; what a load leaves alone is proved of it. For callbacks that act
  on the world behind \<^verbatim>\<open>app\<close> only the two agree (\<open>LoadProvidersShared_confined\<close>).
\<close>

subsection \<open>Data model (\<^verbatim>\<open>types.go\<close>)\<close>

text \<open>The message of a Go \<^verbatim>\<open>error\<close> value returned by a provider.\<close>

type_synonym go_error = string

text \<open>
  A value of type \<^verbatim>\<open>interface{}\<close> in a configuration payload. \<open>IntV\<close> is the dynamic type
  \<^verbatim>\<open>int\<close>, the only one for which the assertion \<^verbatim>\<open>.(int)\<close> succeeds; the priorities are only
  compared, never computed with, so they are \<open>int\<close>. \<open>OtherV\<close> stands for a value of any
  other dynamic type (\<^verbatim>\<open>int64\<close>, \<^verbatim>\<open>float64\<close>, a slice, ...).
\<close>

datatype cfg_value = IntV int | StrV string | BoolV bool | NilV | OtherV nat

text \<open>A non-nil \<^verbatim>\<open>map[string]interface{}\<close>; a possibly nil one is a \<open>config option\<close>.\<close>

type_synonym config = "string \<rightharpoonup> cfg_value"

record 'w ServiceProvider =
  Name :: string
  Register :: "'w \<Rightarrow> go_error option \<times> 'w"
  Boot :: "'w \<Rightarrow> go_error option \<times> 'w"
  Configure :: "(config \<Rightarrow> 'w \<Rightarrow> go_error option \<times> 'w) option"
  Priority :: "int option"
  IsOptional :: "bool option"

text \<open>The struct \<^verbatim>\<open>Provider\<close>: the loader's own state.\<close>

record Provider =
  EnabledProviders :: "string \<rightharpoonup> bool"
  ProviderConfigs :: "string \<rightharpoonup> config option"

text \<open>The calls made on providers, as a call-tracking mock records them, with their results.\<close>

datatype event =
    ConfigureCall string config "go_error option"
  | RegisterCall string "go_error option"
  | BootCall string "go_error option"

text \<open>
  The errors \<^verbatim>\<open>LoadProviders\<close> returns: \<^verbatim>\<open>fmt.Errorf("failed to ... provider '%s': %w", name, err)\<close>,
  the provider's name and the wrapped cause.
\<close>

datatype load_error =
    ConfigureFailed string go_error
  | RegisterFailed string go_error
  | BootFailed string go_error

text \<open>
  The state \<^verbatim>\<open>LoadProviders\<close> runs in: the package variable \<^verbatim>\<open>globalProviders\<close>, the receiver
  \<^verbatim>\<open>p\<close>, the world behind \<^verbatim>\<open>app\<close>, and the calls made so far.
\<close>

record 'w state =
  globalProviders :: "'w ServiceProvider list"
  loader :: Provider
  app :: 'w
  calls :: "event list"

subsection \<open>The registry\<close>

text \<open>The panic of \<^verbatim>\<open>RegisterGlobalProvider\<close>, with its message.\<close>

datatype panic = Panic string

text \<open>The loop of \<^verbatim>\<open>RegisterGlobalProvider\<close> over \<^verbatim>\<open>globalProviders\<close>.\<close>

fun findDuplicate :: "'w ServiceProvider list \<Rightarrow> 'w ServiceProvider \<Rightarrow> panic option" where
  "findDuplicate [] provider = None"
| "findDuplicate (p # ps) provider =
     (if Name p = Name provider
      then Some (Panic (''provider with name '' @ [CHR 0x27] @ Name provider @ [CHR 0x27] @ '' already registered''))
      else findDuplicate ps provider)"

text \<open>\<^verbatim>\<open>RegisterGlobalProvider\<close>: the panic, if any, and the registry afterwards.\<close>

definition RegisterGlobalProvider ::
  "'w ServiceProvider list \<Rightarrow> 'w ServiceProvider \<Rightarrow> panic option \<times> 'w ServiceProvider list" where
  "RegisterGlobalProvider gs provider =
     (case findDuplicate gs provider of
        Some pn \<Rightarrow> (Some pn, gs)
      | None \<Rightarrow> (None, gs @ [provider]))"

subsection \<open>Accessors of the loader\<close>

definition IsProviderEnabled :: "Provider \<Rightarrow> string \<Rightarrow> bool" where
  "IsProviderEnabled p name =
     (case EnabledProviders p name of
        None \<Rightarrow> True
      | Some enabled \<Rightarrow> enabled)"

text \<open>Reading a missing key of a Go map gives the zero value, here the nil map.\<close>

definition GetProviderConfig :: "Provider \<Rightarrow> string \<Rightarrow> config option" where
  "GetProviderConfig p name =
     (case ProviderConfigs p name of
        None \<Rightarrow> None
      | Some cfg \<Rightarrow> cfg)"

definition SetProviderEnabled :: "Provider \<Rightarrow> string \<Rightarrow> bool \<Rightarrow> Provider" where
  "SetProviderEnabled p name enabled = p\<lparr>EnabledProviders := (EnabledProviders p)(name \<mapsto> enabled)\<rparr>"

definition SetProviderConfig :: "Provider \<Rightarrow> string \<Rightarrow> config option \<Rightarrow> Provider" where
  "SetProviderConfig p name cfg = p\<lparr>ProviderConfigs := (ProviderConfigs p)(name \<mapsto> cfg)\<rparr>"

subsection \<open>\<^verbatim>\<open>sortProvidersByPriority\<close>\<close>

record 'w providerWithPriority =
  provider :: "'w ServiceProvider"
  priority :: int

text \<open>The body of the first loop: the priority resolved for one provider.\<close>

definition resolvePriority :: "Provider \<Rightarrow> 'w ServiceProvider \<Rightarrow> int" where
  "resolvePriority p prov =
     (case GetProviderConfig p (Name prov) of
        Some cfg \<Rightarrow>
          (case cfg ''priority'' of
             Some (IntV customPriority) \<Rightarrow> customPriority
           | _ \<Rightarrow> (case Priority prov of Some pp \<Rightarrow> pp | None \<Rightarrow> 100))
      | None \<Rightarrow> (case Priority prov of Some pp \<Rightarrow> pp | None \<Rightarrow> 100))"

text \<open>
  The inner loop of the insertion sort,
  \<^verbatim>\<open>for j >= 0 && withPriority[j].priority > key.priority { withPriority[j+1] = withPriority[j]; j-- }\<close>:
  the array and \<open>j\<close> when it ends. \<open>j\<close> is a Go \<^verbatim>\<open>int\<close> and ends at \<open>-1\<close> when the key is
  the least. The outer loop calls it with \<open>j + 1 < length a\<close>, so every index is in range.
\<close>

function insertionInner ::
  "'w providerWithPriority list \<Rightarrow> 'w providerWithPriority \<Rightarrow> int
     \<Rightarrow> 'w providerWithPriority list \<times> int" where
  "insertionInner a key j =
     (if j \<ge> 0 \<and> priority (a ! nat j) > priority key
      then insertionInner (a[nat (j + 1) := a ! nat j]) key (j - 1)
      else (a, j))"
  by pat_completeness auto
termination
  by (relation "measure (\<lambda>(a, key, j). nat (j + 1))") auto

declare insertionInner.simps [simp del]

text \<open>
  The outer loop, \<^verbatim>\<open>for i := 1; i < len(withPriority); i++\<close>, with
  \<^verbatim>\<open>withPriority[j+1] = key\<close> after the inner loop.
\<close>

function insertionOuter :: "'w providerWithPriority list \<Rightarrow> nat \<Rightarrow> 'w providerWithPriority list" where
  "insertionOuter a i =
     (if i < length a
      then (let key = a ! i;
                r = insertionInner a key (int i - 1)
            in insertionOuter ((fst r)[nat (snd r + 1) := key]) (i + 1))
      else a)"
  by pat_completeness auto
termination
proof (relation "measure (\<lambda>(a, i). length a - i)")
  show "wf (measure (\<lambda>(a, i). length a - i))"
    by simp
next
  fix a :: "'w providerWithPriority list" and i :: nat and x xa
  assume less: "i < length a" and xa: "xa = insertionInner a x (int i - 1)"
  have len: "length (fst (insertionInner b key j)) = length b"
    for b :: "'w providerWithPriority list" and key j
  proof (induction b key j rule: insertionInner.induct)
    case (1 b key j)
    show ?case
    proof (cases "j \<ge> 0 \<and> priority (b ! nat j) > priority key")
      case True
      then show ?thesis
        using "1.IH" by (subst insertionInner.simps) simp
    next
      case False
      then show ?thesis
        by (subst insertionInner.simps) auto
    qed
  qed
  from less xa show "(((fst xa)[nat (snd xa + 1) := x], i + 1), a, i) \<in> measure (\<lambda>(a, i). length a - i)"
    using len [of a x "int i - 1"] by simp
qed

declare insertionOuter.simps [simp del]

definition sortProvidersByPriority ::
  "Provider \<Rightarrow> 'w ServiceProvider list \<Rightarrow> 'w ServiceProvider list" where
  "sortProvidersByPriority p providers =
     (let withPriority = map (\<lambda>prov. \<lparr>provider = prov, priority = resolvePriority p prov\<rparr>) providers;
          sorted = insertionOuter withPriority 1
      in map provider sorted)"

subsection \<open>\<^verbatim>\<open>LoadProviders\<close>\<close>

text \<open>A call of a provider's method on the current world, recorded in \<open>calls\<close>.\<close>

definition callConfigure ::
  "'w ServiceProvider \<Rightarrow> (config \<Rightarrow> 'w \<Rightarrow> go_error option \<times> 'w) \<Rightarrow> config \<Rightarrow> 'w state
     \<Rightarrow> go_error option \<times> 'w state" where
  "callConfigure prov configure cfg s =
     (let r = configure cfg (app s)
      in (fst r, s\<lparr>app := snd r, calls := calls s @ [ConfigureCall (Name prov) cfg (fst r)]\<rparr>))"

definition callRegister :: "'w ServiceProvider \<Rightarrow> 'w state \<Rightarrow> go_error option \<times> 'w state" where
  "callRegister prov s =
     (let r = Register prov (app s)
      in (fst r, s\<lparr>app := snd r, calls := calls s @ [RegisterCall (Name prov) (fst r)]\<rparr>))"

definition callBoot :: "'w ServiceProvider \<Rightarrow> 'w state \<Rightarrow> go_error option \<times> 'w state" where
  "callBoot prov s =
     (let r = Boot prov (app s)
      in (fst r, s\<lparr>app := snd r, calls := calls s @ [BootCall (Name prov) (fst r)]\<rparr>))"

text \<open>
  \<^verbatim>\<open>if configurable, ok := prov.(ConfigurableProvider); ok { if config := ...; config != nil { ... } }\<close>:
  the error of \<^verbatim>\<open>Configure\<close>, if it was called and failed.
\<close>

definition configureStep :: "'w ServiceProvider \<Rightarrow> 'w state \<Rightarrow> go_error option \<times> 'w state" where
  "configureStep prov s =
     (case Configure prov of
        None \<Rightarrow> (None, s)
      | Some configure \<Rightarrow>
          (case GetProviderConfig (loader s) (Name prov) of
             None \<Rightarrow> (None, s)
           | Some cfg \<Rightarrow> callConfigure prov configure cfg s))"

text \<open>
  The first pass over \<^verbatim>\<open>sortedProviders\<close>, with \<^verbatim>\<open>registeredProviders\<close> as accumulator: an
  error returns at once, the end of the loop gives the registered providers.
\<close>

fun registerPhase ::
  "'w ServiceProvider list \<Rightarrow> 'w ServiceProvider list \<Rightarrow> 'w state
     \<Rightarrow> (load_error + 'w ServiceProvider list) \<times> 'w state" where
  "registerPhase [] registeredProviders s = (Inr registeredProviders, s)"
| "registerPhase (prov # rest) registeredProviders s =
     (if \<not> IsProviderEnabled (loader s) (Name prov)
      then registerPhase rest registeredProviders s
      else (case configureStep prov s of
              (Some err, s1) \<Rightarrow> (Inl (ConfigureFailed (Name prov) err), s1)
            | (None, s1) \<Rightarrow>
                (case callRegister prov s1 of
                   (Some err, s2) \<Rightarrow> (Inl (RegisterFailed (Name prov) err), s2)
                 | (None, s2) \<Rightarrow> registerPhase rest (registeredProviders @ [prov]) s2)))"

text \<open>The second pass, over \<^verbatim>\<open>registeredProviders\<close>.\<close>

fun bootPhase :: "'w ServiceProvider list \<Rightarrow> 'w state \<Rightarrow> load_error option \<times> 'w state" where
  "bootPhase [] s = (None, s)"
| "bootPhase (prov # rest) s =
     (case callBoot prov s of
        (Some err, s1) \<Rightarrow>
          (if IsOptional prov = Some True
           then bootPhase rest s1
           else (Some (BootFailed (Name prov) err), s1))
      | (None, s1) \<Rightarrow> bootPhase rest s1)"

definition LoadProviders :: "'w state \<Rightarrow> load_error option \<times> 'w state" where
  "LoadProviders s =
     (let providers = globalProviders s;
          sortedProviders = sortProvidersByPriority (loader s) providers
      in (case registerPhase sortedProviders [] s of
            (Inl err, s1) \<Rightarrow> (Some err, s1)
          | (Inr registeredProviders, s1) \<Rightarrow> bootPhase registeredProviders s1))"

subsection \<open>\<^verbatim>\<open>LoadProviders\<close> with callbacks that reach the loader and the registry\<close>

text \<open>
  In Go nothing confines a callback to the host application. \<^verbatim>\<open>GetProviderConfig\<close> returns
  the map stored in \<^verbatim>\<open>ProviderConfigs\<close> itself and \<^verbatim>\<open>LoadProviders\<close> hands it to \<^verbatim>\<open>Configure\<close>,
  which can write to it; \<^verbatim>\<open>RegisterGlobalProvider\<close> is exported and can be called from any
  callback; and the loader's setters can be, when \<^verbatim>\<open>app\<close> leads to the loader. Here the
  callbacks are functions on all of this: the registry, the loader and the rest. The registry
  holds references to provider objects; a table \<open>objects\<close> gives the provider behind a
  reference. The loops are those of \<^verbatim>\<open>LoadProviders\<close> again, on this state and without the
  record of calls: \<^verbatim>\<open>providers\<close> is the copy of the registry made at the start, the loader
  is read anew at each turn.
\<close>

record 'a shared =
  sharedProviders :: "nat list"
  sharedLoader :: Provider
  sharedApp :: 'a





text \<open>
  The loader's two maps and the registry are in \<open>s'\<close> what they are in \<open>s\<close>; and a provider
  none of whose callbacks ever changes them.
\<close>

definition sameLoaderAndRegistry :: "'a shared \<Rightarrow> 'a shared \<Rightarrow> bool" where
  "sameLoaderAndRegistry s s' \<longleftrightarrow>
     EnabledProviders (sharedLoader s') = EnabledProviders (sharedLoader s)
     \<and> ProviderConfigs (sharedLoader s') = ProviderConfigs (sharedLoader s)
     \<and> sharedProviders s' = sharedProviders s"





subsection \<open>Observing a run\<close>

text \<open>The calls a run has added to the record: those of \<open>s'\<close> that \<open>s\<close> did not have yet.\<close>

definition newCalls :: "'w state \<Rightarrow> 'w state \<Rightarrow> event list" where
  "newCalls s s' = drop (length (calls s)) (calls s')"

fun isBoot :: "event \<Rightarrow> bool" where
  "isBoot (BootCall n r) = True"
| "isBoot (RegisterCall n r) = False"
| "isBoot (ConfigureCall n cfg r) = False"

fun eventName :: "event \<Rightarrow> string" where
  "eventName (ConfigureCall n cfg r) = n"
| "eventName (RegisterCall n r) = n"
| "eventName (BootCall n r) = n"

fun eventResult :: "event \<Rightarrow> go_error option" where
  "eventResult (ConfigureCall n cfg r) = r"
| "eventResult (RegisterCall n r) = r"
| "eventResult (BootCall n r) = r"

text \<open>The names of the providers whose \<^verbatim>\<open>Register\<close> (\<^verbatim>\<open>Boot\<close>) was called, in the order of the calls.\<close>

fun registerCalls :: "event list \<Rightarrow> string list" where
  "registerCalls [] = []"
| "registerCalls (RegisterCall n r # es) = n # registerCalls es"
| "registerCalls (ConfigureCall n cfg r # es) = registerCalls es"
| "registerCalls (BootCall n r # es) = registerCalls es"

fun bootCalls :: "event list \<Rightarrow> string list" where
  "bootCalls [] = []"
| "bootCalls (BootCall n r # es) = n # bootCalls es"
| "bootCalls (ConfigureCall n cfg r # es) = bootCalls es"
| "bootCalls (RegisterCall n r # es) = bootCalls es"

text \<open>
  Two properties of a record of calls. In the first, every successful \<^verbatim>\<open>Configure\<close> call is
  followed at once by a \<^verbatim>\<open>Register\<close> call on the same name. In the second, with \<open>stored\<close>
  the payload kept for a name and \<open>configurable\<close> the names whose providers all have the
  \<^verbatim>\<open>Configure\<close> capability, every \<^verbatim>\<open>Register\<close> call on a configurable name with a payload
  comes directly after a successful \<^verbatim>\<open>Configure\<close> call on that name with that payload.
\<close>

definition configureThenRegister :: "event list \<Rightarrow> bool" where
  "configureThenRegister es \<longleftrightarrow>
     (\<forall>before n cfg after. es = before @ ConfigureCall n cfg None # after
        \<longrightarrow> (\<exists>res after'. after = RegisterCall n res # after'))"

definition registerAfterConfigure ::
  "(string \<Rightarrow> config option) \<Rightarrow> (string \<Rightarrow> bool) \<Rightarrow> event list \<Rightarrow> bool" where
  "registerAfterConfigure stored configurable es \<longleftrightarrow>
     (\<forall>before n res after cfg.
        es = before @ RegisterCall n res # after \<and> stored n = Some cfg \<and> configurable n
        \<longrightarrow> (\<exists>before'. before = before' @ [ConfigureCall n cfg None]))"

text \<open>
  The providers the first pass of \<^verbatim>\<open>LoadProviders\<close> does not skip, in the order in which it
  meets them: the sorted copy of the registry without the disabled providers.
\<close>

definition loadOrder :: "'w state \<Rightarrow> 'w ServiceProvider list" where
  "loadOrder s =
     filter (\<lambda>prov. IsProviderEnabled (loader s) (Name prov))
       (sortProvidersByPriority (loader s) (globalProviders s))"

subsection \<open>Example providers\<close>

text \<open>
  Providers in the manner of the mocks of \<^verbatim>\<open>provider_test.go\<close>. Their world is a counter of
  the calls made; a callback succeeds or fails with a fixed message.
\<close>

definition succeed :: "nat \<Rightarrow> go_error option \<times> nat" where
  "succeed w = (None, Suc w)"

definition failWith :: "go_error \<Rightarrow> nat \<Rightarrow> go_error option \<times> nat" where
  "failWith msg w = (Some msg, Suc w)"

text \<open>\<^verbatim>\<open>mockProvider\<close>: every optional interface, all callbacks succeeding, not optional.\<close>

definition mockProvider :: "string \<Rightarrow> int \<Rightarrow> nat ServiceProvider" where
  "mockProvider name prio =
     \<lparr>Name = name, Register = succeed, Boot = succeed, Configure = Some (\<lambda>cfg. succeed),
      Priority = Some prio, IsOptional = Some False\<rparr>"

text \<open>\<^verbatim>\<open>noPriorityProvider\<close>: the three required methods only.\<close>

definition noPriorityProvider :: "string \<Rightarrow> nat ServiceProvider" where
  "noPriorityProvider name =
     \<lparr>Name = name, Register = succeed, Boot = succeed, Configure = None,
      Priority = None, IsOptional = None\<rparr>"

text \<open>A loader with nothing set, and a state to start a load from.\<close>

definition newProvider :: Provider where
  "newProvider = \<lparr>EnabledProviders = Map.empty, ProviderConfigs = Map.empty\<rparr>"

definition startState :: "nat ServiceProvider list \<Rightarrow> Provider \<Rightarrow> nat state" where
  "startState gs p = \<lparr>globalProviders = gs, loader = p, app = 0, calls = []\<rparr>"

text \<open>Variants of \<^verbatim>\<open>mockProvider\<close> of priority 100 with one failing callback.\<close>

definition bootFailing :: "string \<Rightarrow> bool option \<Rightarrow> nat ServiceProvider" where
  "bootFailing name optional =
     (mockProvider name 100)\<lparr>Boot := failWith ''boot error'', IsOptional := optional\<rparr>"

definition registerFailing :: "string \<Rightarrow> nat ServiceProvider" where
  "registerFailing name = (mockProvider name 100)\<lparr>Register := failWith ''register error''\<rparr>"

definition configureFailing :: "string \<Rightarrow> nat ServiceProvider" where
  "configureFailing name =
     (mockProvider name 100)\<lparr>Configure := Some (\<lambda>cfg. failWith ''configure error'')\<rparr>"

text \<open>Configuration payloads: \<^verbatim>\<open>{"priority": 80}\<close>, \<^verbatim>\<open>{"key": "value"}\<close> and the empty map.\<close>

definition priorityConfig :: config where
  "priorityConfig = [''priority'' \<mapsto> IntV 80]"

definition keyValueConfig :: config where
  "keyValueConfig = [''key'' \<mapsto> StrV ''value'']"

definition emptyConfig :: config where
  "emptyConfig = Map.empty"

text \<open>
  Three providers registered out of priority order, as in
  \<^verbatim>\<open>TestLoadProvidersExecutionOrder\<close>, and the state their load ends in.
\<close>

definition orderStart :: "nat state" where
  "orderStart =
     startState [mockProvider ''low'' 90, mockProvider ''high'' 10, mockProvider ''medium'' 50]
       newProvider"

definition orderFinal :: "nat state" where
  "orderFinal =
     orderStart\<lparr>app := 6,
       calls := [RegisterCall ''high'' None, RegisterCall ''medium'' None, RegisterCall ''low'' None,
                 BootCall ''high'' None, BootCall ''medium'' None, BootCall ''low'' None]\<rparr>"



text \<open>A provider whose \<^verbatim>\<open>Boot\<close> fails, optional or required, in front of another one.\<close>

definition bootFailStart :: "bool option \<Rightarrow> nat state" where
  "bootFailStart optional =
     startState [bootFailing ''flaky'' optional, mockProvider ''next'' 100] newProvider"

definition bootFailRegistered :: "bool option \<Rightarrow> nat state" where
  "bootFailRegistered optional =
     (bootFailStart optional)\<lparr>app := 2,
       calls := [RegisterCall ''flaky'' None, RegisterCall ''next'' None]\<rparr>"

definition bootFailFailed :: "bool option \<Rightarrow> nat state" where
  "bootFailFailed optional =
     (bootFailStart optional)\<lparr>app := 3,
       calls := [RegisterCall ''flaky'' None, RegisterCall ''next'' None,
                 BootCall ''flaky'' (Some ''boot error'')]\<rparr>"

definition bootFailFinal :: "bool option \<Rightarrow> nat state" where
  "bootFailFinal optional =
     (bootFailStart optional)\<lparr>app := 4,
       calls := [RegisterCall ''flaky'' None, RegisterCall ''next'' None,
                 BootCall ''flaky'' (Some ''boot error''), BootCall ''next'' None]\<rparr>"

text \<open>A provider whose \<^verbatim>\<open>Register\<close> fails, between two that work.\<close>

definition registerFailStart :: "nat state" where
  "registerFailStart =
     startState [mockProvider ''first'' 10, registerFailing ''failing'', mockProvider ''next'' 100]
       newProvider"

definition registerFailFinal :: "nat state" where
  "registerFailFinal =
     registerFailStart\<lparr>app := 2,
       calls := [RegisterCall ''first'' None, RegisterCall ''failing'' (Some ''register error'')]\<rparr>"

text \<open>
  A provider whose \<^verbatim>\<open>Configure\<close> fails, with a payload stored for it, registered in front
  of two that work.
\<close>

definition configureFailStart :: "nat state" where
  "configureFailStart =
     startState [configureFailing ''failing'', mockProvider ''early'' 10, mockProvider ''next'' 100]
       (SetProviderConfig newProvider ''failing'' (Some keyValueConfig))"

definition configureFailFinal :: "nat state" where
  "configureFailFinal =
     configureFailStart\<lparr>app := 2,
       calls := [RegisterCall ''early'' None,
                 ConfigureCall ''failing'' keyValueConfig (Some ''configure error'')]\<rparr>"

text \<open>
  Four configurable providers: for the first nothing is stored in \<^verbatim>\<open>ProviderConfigs\<close>, for
  the second the nil map, for the third the empty map, for the fourth \<^verbatim>\<open>{"key": "value"}\<close>.
\<close>

definition storedStart :: "nat state" where
  "storedStart =
     startState [mockProvider ''absent'' 10, mockProvider ''nil'' 20, mockProvider ''empty'' 30,
                 mockProvider ''keyed'' 40]
       (SetProviderConfig
          (SetProviderConfig (SetProviderConfig newProvider ''nil'' None)
             ''empty'' (Some emptyConfig))
          ''keyed'' (Some keyValueConfig))"

definition storedFinal :: "nat state" where
  "storedFinal =
     storedStart\<lparr>app := 10,
       calls := [RegisterCall ''absent'' None, RegisterCall ''nil'' None,
                 ConfigureCall ''empty'' emptyConfig None, RegisterCall ''empty'' None,
                 ConfigureCall ''keyed'' keyValueConfig None, RegisterCall ''keyed'' None,
                 BootCall ''absent'' None, BootCall ''nil'' None, BootCall ''empty'' None,
                 BootCall ''keyed'' None]\<rparr>"






section \<open>The insertion sort is the stable sort by resolved priority\<close>

lemma length_insertionInner: "length (fst (insertionInner a key j)) = length a"
proof (induction a key j rule: insertionInner.induct)
  case (1 a key j)
  show ?case
  proof (cases "j \<ge> 0 \<and> priority (a ! nat j) > priority key")
    case True
    then show ?thesis
      using "1.IH" by (subst insertionInner.simps) simp
  next
    case False
    then show ?thesis
      by (subst insertionInner.simps) auto
  qed
qed

text \<open>
  The inner loop, started with the sorted prefix \<open>xs\<close> in front of the slot of the key,
  leaves the key behind the last element that is not greater: the elements it passed are
  greater, and equal ones stay in front of it. Along the way the array keeps the form
  \<open>take n xs @ h # drop n xs @ rest\<close> with \<open>j = n - 1\<close>, so the indices \<open>j\<close> and \<open>j + 1\<close>
  it reads and writes lie within the array.
\<close>

lemma insertionInner_shape:
  assumes "n \<le> length xs"
    and "\<forall>x \<in> set (drop n xs). priority key < priority x"
    and "a = take n xs @ h # drop n xs @ rest"
    and "j = int n - 1"
  shows "\<exists>ys zs. xs = ys @ zs \<and> (\<forall>z \<in> set zs. priority key < priority z)
           \<and> (ys = [] \<or> priority (last ys) \<le> priority key)
           \<and> (fst (insertionInner a key j))[nat (snd (insertionInner a key j) + 1) := key]
               = ys @ key # zs @ rest"
  using assms
proof (induction n arbitrary: a h j)
  case 0
  then have "insertionInner a key j = (a, j)"
    by (subst insertionInner.simps) simp
  with 0 show ?case
    by (intro exI [of _ "[]"] exI [of _ xs]) simp
next
  case (Suc n)
  have n: "n < length xs" using Suc.prems by simp
  have j: "nat j = n" "j \<ge> 0" "nat (j + 1) = Suc n" using Suc.prems by simp_all
  have an: "a ! n = xs ! n"
    using n Suc.prems(3) by (simp add: nth_append)
  show ?case
  proof (cases "priority key < priority (xs ! n)")
    case True
    have upd: "a[Suc n := xs ! n] = take n xs @ (xs ! n) # drop n xs @ rest"
    proof -
      have "a[Suc n := xs ! n] = take (Suc n) xs @ (xs ! n) # drop (Suc n) xs @ rest"
        using n Suc.prems(3) by (simp add: list_update_append)
      also have "take (Suc n) xs = take n xs @ [xs ! n]"
        using n by (simp add: take_Suc_conv_app_nth)
      also have "(take n xs @ [xs ! n]) @ (xs ! n) # drop (Suc n) xs @ rest
                 = take n xs @ (xs ! n) # drop n xs @ rest"
        using n by (simp add: Cons_nth_drop_Suc)
      finally show ?thesis .
    qed
    have step: "insertionInner a key j = insertionInner (a[Suc n := xs ! n]) key (j - 1)"
      using True j an by (subst insertionInner.simps) simp
    have all: "\<forall>x \<in> set (drop n xs). priority key < priority x"
      using True Suc.prems(2) n by (simp flip: Cons_nth_drop_Suc)
    have "n \<le> length xs" using n by simp
    from Suc.IH [OF this all upd, of "j - 1"] Suc.prems(4) show ?thesis
      unfolding step by simp
  next
    case False
    have stop: "insertionInner a key j = (a, j)"
      using False j an by (subst insertionInner.simps) simp
    have "a[Suc n := key] = take (Suc n) xs @ key # drop (Suc n) xs @ rest"
      using n Suc.prems(3) by (simp add: list_update_append)
    moreover have "last (take (Suc n) xs) = xs ! n"
      using n by (simp add: take_Suc_conv_app_nth)
    ultimately show ?thesis
      using False Suc.prems(2) j stop
      by (intro exI [of _ "take (Suc n) xs"] exI [of _ "drop (Suc n) xs"]) simp
  qed
qed

lemma insert_after_is_sort:
  assumes srt: "ys @ zs = sort_key f xs"
    and zs: "\<forall>z \<in> set zs. f k < f z"
    and ys: "ys = [] \<or> f (last ys) \<le> f k"
  shows "ys @ k # zs = sort_key f (xs @ [k])"
proof (rule properties_for_sort_key [symmetric])
  have "mset (ys @ zs) = mset xs" using srt by simp
  then show "mset (ys @ k # zs) = mset (xs @ [k])" by simp
next
  have sorted: "sorted (map f (ys @ zs))" using srt by simp
  have le: "\<forall>y \<in> set ys. f y \<le> f k"
  proof (cases ys rule: rev_cases)
    case Nil
    then show ?thesis by simp
  next
    case (snoc bs l)
    with ys have "f l \<le> f k" by simp
    moreover have "\<forall>y \<in> set bs. f y \<le> f l"
      using sorted snoc by (simp add: sorted_append)
    ultimately show ?thesis using snoc by auto
  qed
  show "sorted (map f (ys @ k # zs))"
    using sorted le zs by (auto simp: sorted_append intro: less_imp_le order_trans)
next
  fix c assume "c \<in> set (ys @ k # zs)"
  have st: "filter (\<lambda>x. f c = f x) (ys @ zs) = filter (\<lambda>x. f c = f x) xs"
    using sort_key_stable [of f "f c" xs] srt by (simp add: eq_commute)
  show "filter (\<lambda>x. f c = f x) (ys @ k # zs) = filter (\<lambda>x. f c = f x) (xs @ [k])"
  proof (cases "f c = f k")
    case True
    then have "filter (\<lambda>x. f c = f x) zs = []"
      using zs by (auto simp: filter_empty_conv)
    with True st show ?thesis by simp
  next
    case False
    with st show ?thesis by simp
  qed
qed


lemma insertionOuter_sorts:
  assumes "i \<le> length a0"
  shows "insertionOuter (sort_key priority (take i a0) @ drop i a0) i = sort_key priority a0"
  using assms
proof (induction "length a0 - i" arbitrary: i)
  case 0
  then show ?case
    by (subst insertionOuter.simps) simp
next
  case (Suc d)
  define S where "S = sort_key priority (take i a0)"
  define a where "a = S @ drop i a0"
  define key where "key = a0 ! i"
  define rest where "rest = drop (Suc i) a0"
  have i: "i < length a0" using Suc.hyps(2) by simp
  have lenS: "length S = i" using i by (simp add: S_def)
  have a: "a = take i S @ key # drop i S @ rest"
    using i lenS by (simp add: a_def key_def rest_def Cons_nth_drop_Suc)
  have key: "a ! i = key"
    using lenS by (simp add: a nth_append)
  have "i \<le> length S" using lenS by simp
  moreover have "\<forall>x \<in> set (drop i S). priority key < priority x"
    using lenS by simp
  ultimately obtain ys zs where yz: "S = ys @ zs" "\<forall>z \<in> set zs. priority key < priority z"
      "ys = [] \<or> priority (last ys) \<le> priority key"
      "(fst (insertionInner a key (int i - 1)))[nat (snd (insertionInner a key (int i - 1)) + 1) := key]
         = ys @ key # zs @ rest"
    using insertionInner_shape [OF _ _ a, where j = "int i - 1"] by blast
  have "ys @ key # zs = sort_key priority (take i a0 @ [key])"
    using yz(1-3) by (intro insert_after_is_sort) (simp_all add: S_def)
  also have "take i a0 @ [key] = take (Suc i) a0"
    using i by (simp add: key_def take_Suc_conv_app_nth)
  finally have next_a: "ys @ key # zs @ rest = sort_key priority (take (Suc i) a0) @ drop (Suc i) a0"
    by (simp add: rest_def)
  have lena: "i < length a"
    using i lenS by (simp add: a_def)
  have "insertionOuter a i = insertionOuter (ys @ key # zs @ rest) (Suc i)"
    using lena key yz(4) by (subst insertionOuter.simps) (simp add: Let_def)
  also have "\<dots> = sort_key priority a0"
    unfolding next_a using Suc.hyps i by (intro Suc.hyps(1)) simp_all
  finally show ?case by (simp add: a_def S_def)
qed

lemma insertionOuter_sort_key: "insertionOuter a (Suc 0) = sort_key priority a"
proof (cases a)
  case Nil
  then show ?thesis by (subst insertionOuter.simps) simp
next
  case (Cons x xs)
  then show ?thesis
    using insertionOuter_sorts [of "Suc 0" a] by simp
qed

lemma sort_key_map: "sort_key f (map g xs) = map g (sort_key (\<lambda>x. f (g x)) xs)"
proof (induction xs)
  case Nil
  show ?case by simp
next
  case (Cons x xs)
  have "insort_key f (g x) (map g ys) = map g (insort_key (\<lambda>x. f (g x)) x ys)" for ys
    by (induction ys) simp_all
  with Cons show ?case by simp
qed

lemma sortProvidersByPriority_sort_key:
  "sortProvidersByPriority p providers = sort_key (resolvePriority p) providers"
  by (simp add: sortProvidersByPriority_def insertionOuter_sort_key sort_key_map o_def)

section \<open>The two passes of \<^verbatim>\<open>LoadProviders\<close>\<close>

subsection \<open>Recorded calls\<close>

lemma registerCalls_append: "registerCalls (xs @ ys) = registerCalls xs @ registerCalls ys"
  by (induction xs rule: registerCalls.induct) simp_all

lemma bootCalls_append: "bootCalls (xs @ ys) = bootCalls xs @ bootCalls ys"
  by (induction xs rule: bootCalls.induct) simp_all

lemma bootCalls_no_boot: "\<forall>e \<in> set es. \<not> isBoot e \<Longrightarrow> bootCalls es = []"
  by (induction es rule: bootCalls.induct) simp_all


lemma bootCalls_all_boot: "\<forall>e \<in> set es. isBoot e \<Longrightarrow> bootCalls es = map eventName es"
  by (induction es rule: bootCalls.induct) simp_all

lemma newCalls_append: "calls s' = calls s @ es \<Longrightarrow> newCalls s s' = es"
  by (simp add: newCalls_def)

subsection \<open>The single calls and one turn of each loop\<close>

lemma callRegister_effect:
  "callRegister prov s = (r, s') \<Longrightarrow>
     loader s' = loader s \<and> globalProviders s' = globalProviders s
     \<and> calls s' = calls s @ [RegisterCall (Name prov) r]"
  by (auto simp: callRegister_def Let_def)

lemma callBoot_effect:
  "callBoot prov s = (r, s') \<Longrightarrow>
     loader s' = loader s \<and> globalProviders s' = globalProviders s
     \<and> calls s' = calls s @ [BootCall (Name prov) r]"
  by (auto simp: callBoot_def Let_def)

lemma configureStep_effect:
  "configureStep prov s = (r, s') \<Longrightarrow>
     loader s' = loader s \<and> globalProviders s' = globalProviders s
     \<and> (calls s' = calls s \<and> r = None
        \<or> (\<exists>cfg. calls s' = calls s @ [ConfigureCall (Name prov) cfg r]))"
  by (auto simp: configureStep_def callConfigure_def Let_def split: option.splits)

lemma registerPhase_Cons_cases [consumes 1, case_names skip configure_failed register_failed registered]:
  assumes "registerPhase (prov # rest) acc s = res"
  obtains
    "\<not> IsProviderEnabled (loader s) (Name prov)" and "registerPhase rest acc s = res"
  | err s1 where "IsProviderEnabled (loader s) (Name prov)"
      and "configureStep prov s = (Some err, s1)"
      and "res = (Inl (ConfigureFailed (Name prov) err), s1)"
  | err s1 s2 where "IsProviderEnabled (loader s) (Name prov)"
      and "configureStep prov s = (None, s1)" and "callRegister prov s1 = (Some err, s2)"
      and "res = (Inl (RegisterFailed (Name prov) err), s2)"
  | s1 s2 where "IsProviderEnabled (loader s) (Name prov)"
      and "configureStep prov s = (None, s1)" and "callRegister prov s1 = (None, s2)"
      and "registerPhase rest (acc @ [prov]) s2 = res"
proof (cases "IsProviderEnabled (loader s) (Name prov)")
  case False
  with assms that(1) show ?thesis by simp
next
  case True
  obtain c s1 where c: "configureStep prov s = (c, s1)" by force
  obtain g s2 where g: "callRegister prov s1 = (g, s2)" by force
  show ?thesis
  proof (cases c)
    case (Some err)
    with assms True c that(2) show ?thesis by simp
  next
    case None
    with assms True c g that(3,4) show ?thesis by (cases g) simp_all
  qed
qed

lemma bootPhase_Cons_cases [consumes 1, case_names booted optional_failed required_failed]:
  assumes "bootPhase (prov # rest) s = res"
  obtains
    s1 where "callBoot prov s = (None, s1)" and "bootPhase rest s1 = res"
  | err s1 where "callBoot prov s = (Some err, s1)" and "IsOptional prov = Some True"
      and "bootPhase rest s1 = res"
  | err s1 where "callBoot prov s = (Some err, s1)" and "IsOptional prov \<noteq> Some True"
      and "res = (Some (BootFailed (Name prov) err), s1)"
proof -
  obtain b s1 where b: "callBoot prov s = (b, s1)" by force
  show ?thesis
  proof (cases b)
    case None
    with assms b that(1) show ?thesis by simp
  next
    case (Some err)
    with assms b that(2,3) show ?thesis by (cases "IsOptional prov = Some True") simp_all
  qed
qed

subsection \<open>What the passes leave alone\<close>



lemma LoadProviders_cases [consumes 1, case_names phase1_failed phase1_done]:
  assumes "LoadProviders s = (r, s')"
  obtains
    err where "registerPhase (sortProvidersByPriority (loader s) (globalProviders s)) [] s = (Inl err, s')"
      and "r = Some err"
  | regs s1 where "registerPhase (sortProvidersByPriority (loader s) (globalProviders s)) [] s = (Inr regs, s1)"
      and "bootPhase regs s1 = (r, s')"
proof -
  obtain q s1 where q: "registerPhase (sortProvidersByPriority (loader s) (globalProviders s)) [] s = (q, s1)"
    by force
  show ?thesis
  proof (cases q)
    case (Inl err)
    with assms q that(1) show ?thesis by (simp add: LoadProviders_def)
  next
    case (Inr regs)
    with assms q that(2) show ?thesis by (simp add: LoadProviders_def)
  qed
qed



subsection \<open>The calls of each pass\<close>

lemma registerPhase_calls:
  assumes "registerPhase ps acc s = (q, s')"
  shows "\<exists>new. calls s' = calls s @ new
           \<and> (\<forall>e \<in> set new. \<not> isBoot e \<and> IsProviderEnabled (loader s) (eventName e))
           \<and> (\<exists>k. registerCalls new
                  = take k (map Name (filter (\<lambda>prov. IsProviderEnabled (loader s) (Name prov)) ps)))"
  using assms
proof (induction ps arbitrary: acc s)
  case Nil
  then show ?case by simp
next
  case (Cons prov rest)
  let ?en = "\<lambda>prov. IsProviderEnabled (loader s) (Name prov)"
  from Cons.prems show ?case
  proof (cases rule: registerPhase_Cons_cases)
    case skip
    from Cons.IH [OF skip(2)] skip(1) show ?thesis by simp
  next
    case (configure_failed err s1)
    from configureStep_effect [OF configure_failed(2)]
    obtain cfg where "calls s1 = calls s @ [ConfigureCall (Name prov) cfg (Some err)]"
      by auto
    with configure_failed show ?thesis
      by (intro exI [of _ "[ConfigureCall (Name prov) cfg (Some err)]"]) (auto intro: exI [of _ 0])
  next
    case (register_failed err s1 s2)
    from configureStep_effect [OF register_failed(2)] callRegister_effect [OF register_failed(3)]
    obtain c where c: "calls s2 = calls s @ c @ [RegisterCall (Name prov) (Some err)]"
      "\<forall>e \<in> set c. \<not> isBoot e \<and> eventName e = Name prov" "registerCalls c = []"
      by auto
    have "\<exists>k. registerCalls (c @ [RegisterCall (Name prov) (Some err)])
            = take k (map Name (filter ?en (prov # rest)))"
      using c(3) register_failed(1) by (intro exI [of _ "Suc 0"]) (simp add: registerCalls_append)
    with c register_failed show ?thesis
      by (intro exI [of _ "c @ [RegisterCall (Name prov) (Some err)]"]) auto
  next
    case (registered s1 s2)
    from configureStep_effect [OF registered(2)] callRegister_effect [OF registered(3)]
    obtain c where c: "calls s2 = calls s @ c @ [RegisterCall (Name prov) None]"
      "\<forall>e \<in> set c. \<not> isBoot e \<and> eventName e = Name prov" "registerCalls c = []"
      and fr: "loader s2 = loader s"
      by auto
    from Cons.IH [OF registered(4)] fr obtain new k where new: "calls s' = calls s2 @ new"
      "\<forall>e \<in> set new. \<not> isBoot e \<and> IsProviderEnabled (loader s) (eventName e)"
      "registerCalls new = take k (map Name (filter ?en rest))"
      by auto
    have "\<exists>k. registerCalls (c @ RegisterCall (Name prov) None # new)
            = take k (map Name (filter ?en (prov # rest)))"
      using c(3) new(3) registered(1) by (intro exI [of _ "Suc k"]) (simp add: registerCalls_append)
    with c new(1,2) registered(1) show ?thesis
      by (intro exI [of _ "c @ RegisterCall (Name prov) None # new"]) auto
  qed
qed

lemma registerPhase_success:
  assumes "registerPhase ps acc s = (Inr regs, s')"
  shows "regs = acc @ filter (\<lambda>prov. IsProviderEnabled (loader s) (Name prov)) ps
           \<and> registerCalls (newCalls s s')
               = map Name (filter (\<lambda>prov. IsProviderEnabled (loader s) (Name prov)) ps)
           \<and> (\<forall>e \<in> set (newCalls s s'). eventResult e = None)"
  using assms
proof (induction ps arbitrary: acc s)
  case Nil
  then show ?case by (simp add: newCalls_def)
next
  case (Cons prov rest)
  from Cons.prems show ?case
  proof (cases rule: registerPhase_Cons_cases)
    case skip
    from Cons.IH [OF skip(2)] skip(1) show ?thesis by simp
  next
    case (configure_failed err s1)
    then show ?thesis by simp
  next
    case (register_failed err s1 s2)
    then show ?thesis by simp
  next
    case (registered s1 s2)
    from configureStep_effect [OF registered(2)] callRegister_effect [OF registered(3)]
    obtain c where c: "calls s2 = calls s @ c @ [RegisterCall (Name prov) None]"
      "\<forall>e \<in> set c. eventResult e = None" "registerCalls c = []"
      and fr: "loader s2 = loader s"
      by auto
    from registerPhase_calls [OF registered(4)] obtain new where new: "calls s' = calls s2 @ new"
      by auto
    have n2: "newCalls s2 s' = new" and n: "newCalls s s' = c @ RegisterCall (Name prov) None # new"
      using c(1) new by (simp_all add: newCalls_def)
    from Cons.IH [OF registered(4)] show ?thesis
      unfolding n n2 fr using c(2,3) registered(1) by (auto simp: registerCalls_append)
  qed
qed

lemma registerPhase_failure:
  assumes "registerPhase ps acc s = (Inl err, s')"
  shows "\<exists>before ev. newCalls s s' = before @ [ev] \<and> (\<forall>e \<in> set before. eventResult e = None)
           \<and> ((\<exists>n cfg e. ev = ConfigureCall n cfg (Some e) \<and> err = ConfigureFailed n e)
              \<or> (\<exists>n e. ev = RegisterCall n (Some e) \<and> err = RegisterFailed n e))"
  using assms
proof (induction ps arbitrary: acc s)
  case Nil
  then show ?case by simp
next
  case (Cons prov rest)
  from Cons.prems show ?case
  proof (cases rule: registerPhase_Cons_cases)
    case skip
    from Cons.IH [OF skip(2)] show ?thesis .
  next
    case (configure_failed err' s1)
    from configureStep_effect [OF configure_failed(2)]
    obtain cfg where "calls s1 = calls s @ [ConfigureCall (Name prov) cfg (Some err')]"
      by auto
    with configure_failed(3) show ?thesis
      by (intro exI [of _ "[]"] exI [of _ "ConfigureCall (Name prov) cfg (Some err')"])
        (simp add: newCalls_def)
  next
    case (register_failed err' s1 s2)
    from configureStep_effect [OF register_failed(2)] callRegister_effect [OF register_failed(3)]
    obtain c where c: "calls s2 = calls s @ c @ [RegisterCall (Name prov) (Some err')]"
      "\<forall>e \<in> set c. eventResult e = None"
      by auto
    with register_failed(4) show ?thesis
      by (intro exI [of _ c] exI [of _ "RegisterCall (Name prov) (Some err')"])
        (simp add: newCalls_def)
  next
    case (registered s1 s2)
    from configureStep_effect [OF registered(2)] callRegister_effect [OF registered(3)]
    obtain c where c: "calls s2 = calls s @ c @ [RegisterCall (Name prov) None]"
      "\<forall>e \<in> set c. eventResult e = None"
      by auto
    from registerPhase_calls [OF registered(4)] obtain new where new: "calls s' = calls s2 @ new"
      by auto
    have n2: "newCalls s2 s' = new" and n: "newCalls s s' = c @ RegisterCall (Name prov) None # new"
      using c(1) new by (simp_all add: newCalls_def)
    from Cons.IH [OF registered(4)] obtain before ev where
      b: "new = before @ [ev]" "\<forall>e \<in> set before. eventResult e = None"
        "(\<exists>n cfg e. ev = ConfigureCall n cfg (Some e) \<and> err = ConfigureFailed n e)
              \<or> (\<exists>n e. ev = RegisterCall n (Some e) \<and> err = RegisterFailed n e)"
      unfolding n2 by blast
    show ?thesis
      unfolding n using b c(2)
      by (intro exI [of _ "c @ RegisterCall (Name prov) None # before"] exI [of _ ev]) auto
  qed
qed

lemma bootPhase_calls:
  assumes "bootPhase ps s = (r, s')"
  shows "\<exists>new k. calls s' = calls s @ new \<and> (\<forall>e \<in> set new. isBoot e)
           \<and> k \<le> length ps \<and> map eventName new = map Name (take k ps)
           \<and> (ps \<noteq> [] \<longrightarrow> 0 < k) \<and> (r = None \<longrightarrow> k = length ps)"
  using assms
proof (induction ps arbitrary: s)
  case Nil
  then show ?case by simp
next
  case (Cons prov rest)
  have step: ?case if b: "callBoot prov s = (res, s1)" and rest: "bootPhase rest s1 = (r, s')"
    for res s1
  proof -
    from callBoot_effect [OF b] have c: "calls s1 = calls s @ [BootCall (Name prov) res]"
      by simp
    from Cons.IH [OF rest] obtain new k where new: "calls s' = calls s1 @ new"
      "\<forall>e \<in> set new. isBoot e" "k \<le> length rest" "map eventName new = map Name (take k rest)"
      "r = None \<longrightarrow> k = length rest"
      by blast
    with c show ?thesis
      by (intro exI [of _ "BootCall (Name prov) res # new"] exI [of _ "Suc k"]) simp
  qed
  from Cons.prems show ?case
  proof (cases rule: bootPhase_Cons_cases)
    case (booted s1)
    then show ?thesis by (rule step)
  next
    case (optional_failed err s1)
    then show ?thesis using step by blast
  next
    case (required_failed err s1)
    from callBoot_effect [OF required_failed(1)] required_failed(3) show ?thesis
      by (intro exI [of _ "[BootCall (Name prov) (Some err)]"] exI [of _ "Suc 0"]) simp
  qed
qed

text \<open>An error of the second pass names a provider that is not optional.\<close>

lemma bootPhase_error:
  assumes "bootPhase ps s = (Some e, s')"
  shows "\<exists>q \<in> set ps. \<exists>cause. e = BootFailed (Name q) cause \<and> IsOptional q \<noteq> Some True"
  using assms
proof (induction ps arbitrary: s)
  case Nil
  then show ?case by simp
next
  case (Cons prov rest)
  from Cons.prems show ?case
  proof (cases rule: bootPhase_Cons_cases)
    case (booted s1)
    from Cons.IH [OF booted(2)] show ?thesis by auto
  next
    case (optional_failed err s1)
    from Cons.IH [OF optional_failed(3)] show ?thesis by auto
  next
    case (required_failed err s1)
    then show ?thesis by auto
  qed
qed

section \<open>Evaluating the examples\<close>

lemmas provider_defs =
  mockProvider_def noPriorityProvider_def bootFailing_def registerFailing_def configureFailing_def
  succeed_def failWith_def

lemmas loader_defs =
  newProvider_def SetProviderEnabled_def SetProviderConfig_def IsProviderEnabled_def
  GetProviderConfig_def resolvePriority_def priorityConfig_def keyValueConfig_def emptyConfig_def

lemmas run_defs =
  LoadProviders_def sortProvidersByPriority_sort_key startState_def configureStep_def
  callConfigure_def callRegister_def callBoot_def Let_def

lemma orderStart_run: "LoadProviders orderStart = (None, orderFinal)"
  by (simp add: orderStart_def orderFinal_def run_defs loader_defs provider_defs)


lemma registerFailStart_run:
  "LoadProviders registerFailStart
     = (Some (RegisterFailed ''failing'' ''register error''), registerFailFinal)"
  by (simp add: registerFailStart_def registerFailFinal_def run_defs loader_defs provider_defs)

lemma configureFailStart_run:
  "LoadProviders configureFailStart
     = (Some (ConfigureFailed ''failing'' ''configure error''), configureFailFinal)"
  by (simp add: configureFailStart_def configureFailFinal_def run_defs loader_defs provider_defs)

lemma storedStart_run: "LoadProviders storedStart = (None, storedFinal)"
  by (simp add: storedStart_def storedFinal_def run_defs loader_defs provider_defs)

section \<open>The order of a load\<close>

lemma loadOrder_sort_key:
  "loadOrder s = sort_key (resolvePriority (loader s))
     (filter (\<lambda>prov. IsProviderEnabled (loader s) (Name prov)) (globalProviders s))"
  by (simp add: loadOrder_def sortProvidersByPriority_sort_key filter_sort)

lemma orderStart_loadOrder: "map Name (loadOrder orderStart) = [''high'', ''medium'', ''low'']"
  by (simp add: loadOrder_sort_key orderStart_def startState_def loader_defs provider_defs)


text \<open>
  C1. A successful \<^verbatim>\<open>LoadProviders\<close> makes its calls in two separate phases: first the calls
  of the register phase, among them no \<^verbatim>\<open>Boot\<close>, then only \<^verbatim>\<open>Boot\<close> calls. \<^verbatim>\<open>Register\<close> is
  called on the enabled providers of the registry in ascending order of resolved priority,
  and \<^verbatim>\<open>Boot\<close> on the same providers in the same order.
\<close>

theorem LoadProviders_two_phases:
  assumes "LoadProviders s = (None, s')"
  shows "\<exists>phase1 phase2. calls s' = calls s @ phase1 @ phase2
           \<and> (\<forall>e \<in> set phase1. \<not> isBoot e) \<and> (\<forall>e \<in> set phase2. isBoot e)
           \<and> registerCalls phase1 = map Name (loadOrder s)
           \<and> bootCalls phase2 = map Name (loadOrder s)
           \<and> sorted (map (resolvePriority (loader s)) (loadOrder s))
           \<and> set (loadOrder s)
               = {prov \<in> set (globalProviders s). IsProviderEnabled (loader s) (Name prov)}"
  using assms
proof (cases rule: LoadProviders_cases)
  case (phase1_failed err)
  then show ?thesis by simp
next
  case (phase1_done regs s1)
  from registerPhase_calls [OF phase1_done(1)] obtain phase1 where
    p1: "calls s1 = calls s @ phase1" "\<forall>e \<in> set phase1. \<not> isBoot e"
    by blast
  from registerPhase_success [OF phase1_done(1)] p1(1) have
    regs: "regs = loadOrder s" and r1: "registerCalls phase1 = map Name (loadOrder s)"
    by (simp_all add: loadOrder_def newCalls_def)
  from bootPhase_calls [OF phase1_done(2)] obtain phase2 where
    p2: "calls s' = calls s1 @ phase2" "\<forall>e \<in> set phase2. isBoot e"
      "map eventName phase2 = map Name regs"
    by auto
  have "bootCalls phase2 = map Name (loadOrder s)"
    using p2(2,3) regs by (simp add: bootCalls_all_boot)
  moreover have "sorted (map (resolvePriority (loader s)) (loadOrder s))"
    by (simp add: loadOrder_sort_key)
  moreover have "set (loadOrder s)
      = {prov \<in> set (globalProviders s). IsProviderEnabled (loader s) (Name prov)}"
    by (auto simp: loadOrder_sort_key)
  ultimately show ?thesis
    using p1 p2(1,2) r1 by (intro exI [of _ phase1] exI [of _ phase2]) simp
qed

theorem LoadProviders_two_phases_witness:
  "LoadProviders orderStart = (None, orderFinal)
   \<and> (\<exists>phase1 phase2. calls orderFinal = calls orderStart @ phase1 @ phase2
        \<and> (\<forall>e \<in> set phase1. \<not> isBoot e) \<and> (\<forall>e \<in> set phase2. isBoot e)
        \<and> registerCalls phase1 = [''high'', ''medium'', ''low'']
        \<and> bootCalls phase2 = [''high'', ''medium'', ''low''])"
proof -
  from LoadProviders_two_phases [OF orderStart_run] obtain phase1 phase2 where
    "calls orderFinal = calls orderStart @ phase1 @ phase2"
    "\<forall>e \<in> set phase1. \<not> isBoot e" "\<forall>e \<in> set phase2. isBoot e"
    "registerCalls phase1 = map Name (loadOrder orderStart)"
    "bootCalls phase2 = map Name (loadOrder orderStart)"
    by blast
  then show ?thesis
    unfolding orderStart_loadOrder using orderStart_run by blast
qed




section \<open>Priority resolution\<close>

text \<open>
  C3. The priority resolved for a provider, by which \<^verbatim>\<open>sortProvidersByPriority\<close> orders the
  providers: when a configuration payload is stored for its name and holds an \<^verbatim>\<open>int\<close> under
  \<^verbatim>\<open>priority\<close>, that integer, whatever the provider declares; when no payload is stored and
  the provider has the \<^verbatim>\<open>Priority\<close> capability, the declared value; when no payload is
  stored and it has no such capability, the default 100.
\<close>

theorem priority_resolution_precedence:
  "(\<forall>cfg n. GetProviderConfig p (Name prov) = Some cfg \<and> cfg ''priority'' = Some (IntV n)
       \<longrightarrow> resolvePriority p prov = n)
   \<and> (\<forall>d. GetProviderConfig p (Name prov) = None \<and> Priority prov = Some d
       \<longrightarrow> resolvePriority p prov = d)
   \<and> (GetProviderConfig p (Name prov) = None \<and> Priority prov = None
       \<longrightarrow> resolvePriority p prov = 100)
   \<and> sorted (map (resolvePriority p) (sortProvidersByPriority p providers))
   \<and> mset (sortProvidersByPriority p providers) = mset providers"
proof -
  have "resolvePriority p prov = n"
    if "GetProviderConfig p (Name prov) = Some cfg" and "cfg ''priority'' = Some (IntV n)"
    for cfg n
    using that by (simp add: resolvePriority_def)
  moreover have "resolvePriority p prov = d"
    if "GetProviderConfig p (Name prov) = None" and "Priority prov = Some d" for d
    using that by (simp add: resolvePriority_def)
  moreover have "resolvePriority p prov = 100"
    if "GetProviderConfig p (Name prov) = None" and "Priority prov = None"
    using that by (simp add: resolvePriority_def)
  moreover have "sorted (map (resolvePriority p) (sortProvidersByPriority p providers))"
    and "mset (sortProvidersByPriority p providers) = mset providers"
    by (simp_all add: sortProvidersByPriority_sort_key)
  ultimately show ?thesis by blast
qed

theorem priority_resolution_precedence_witness:
  "GetProviderConfig (SetProviderConfig newProvider ''provider1'' (Some priorityConfig))
       (Name (mockProvider ''provider1'' 50)) = Some priorityConfig
   \<and> priorityConfig ''priority'' = Some (IntV 80)
   \<and> Priority (mockProvider ''provider1'' 50) = Some 50
   \<and> resolvePriority (SetProviderConfig newProvider ''provider1'' (Some priorityConfig))
       (mockProvider ''provider1'' 50) = 80
   \<and> map Name (sortProvidersByPriority
         (SetProviderConfig newProvider ''provider1'' (Some priorityConfig))
         [mockProvider ''provider1'' 50, mockProvider ''provider2'' 60])
       = [''provider2'', ''provider1'']
   \<and> GetProviderConfig newProvider (Name (mockProvider ''high'' 10)) = None
   \<and> Priority (mockProvider ''high'' 10) = Some 10
   \<and> resolvePriority newProvider (mockProvider ''high'' 10) = 10
   \<and> GetProviderConfig newProvider (Name (noPriorityProvider ''default'')) = None
   \<and> Priority (noPriorityProvider ''default'') = None
   \<and> resolvePriority newProvider (noPriorityProvider ''default'') = 100"
proof -
  let ?p = "SetProviderConfig newProvider ''provider1'' (Some priorityConfig)"
  have a: "GetProviderConfig ?p (Name (mockProvider ''provider1'' 50)) = Some priorityConfig"
    "priorityConfig ''priority'' = Some (IntV 80)"
    "Priority (mockProvider ''provider1'' 50) = Some 50"
    by (simp_all add: loader_defs provider_defs)
  have b: "GetProviderConfig newProvider (Name (mockProvider ''high'' 10)) = None"
    "Priority (mockProvider ''high'' 10) = Some 10"
    by (simp_all add: loader_defs provider_defs)
  have c: "GetProviderConfig newProvider (Name (noPriorityProvider ''default'')) = None"
    "Priority (noPriorityProvider ''default'') = None"
    by (simp_all add: loader_defs provider_defs)
  have order: "map Name (sortProvidersByPriority ?p
        [mockProvider ''provider1'' 50, mockProvider ''provider2'' 60])
      = [''provider2'', ''provider1'']"
    by (simp add: sortProvidersByPriority_sort_key loader_defs provider_defs)
  have "resolvePriority ?p (mockProvider ''provider1'' 50) = 80"
    using priority_resolution_precedence [of ?p "mockProvider ''provider1'' 50"] a by blast
  moreover have "resolvePriority newProvider (mockProvider ''high'' 10) = 10"
    using priority_resolution_precedence [of newProvider "mockProvider ''high'' 10"] b by blast
  moreover have "resolvePriority newProvider (noPriorityProvider ''default'') = 100"
    using priority_resolution_precedence [of newProvider "noPriorityProvider ''default''"] c
    by blast
  ultimately show ?thesis
    using a b c order by blast
qed

text \<open>
  C4, as stated: a provider with the \<^verbatim>\<open>Priority\<close> capability and a stored payload without an
  \<^verbatim>\<open>int\<close> under \<^verbatim>\<open>priority\<close> gets the default 100. The code does otherwise: the branch
  \<^verbatim>\<open>else if pp, ok := prov.(PriorityProvider); ok\<close> under \<^verbatim>\<open>config != nil\<close> takes the declared
  priority. A provider declaring 50 with the payload \<^verbatim>\<open>{"key": "value"}\<close> resolves to 50.
\<close>

theorem config_without_priority_counterexample:
  "Priority (mockProvider ''provider1'' 50) = Some 50
   \<and> GetProviderConfig (SetProviderConfig newProvider ''provider1'' (Some keyValueConfig))
       (Name (mockProvider ''provider1'' 50)) = Some keyValueConfig
   \<and> keyValueConfig ''priority'' = None
   \<and> resolvePriority (SetProviderConfig newProvider ''provider1'' (Some keyValueConfig))
       (mockProvider ''provider1'' 50) = 50
   \<and> resolvePriority (SetProviderConfig newProvider ''provider1'' (Some keyValueConfig))
       (mockProvider ''provider1'' 50) \<noteq> 100"
  by (simp add: loader_defs provider_defs)

text \<open>
  C4, amended. For a provider with the \<^verbatim>\<open>Priority\<close> capability, when a payload is stored for
  its name and holds no \<^verbatim>\<open>int\<close> under \<^verbatim>\<open>priority\<close> (no such key, or a value of another type),
  the resolved priority is the priority the provider declares.
\<close>

theorem config_without_priority_uses_declared:
  assumes "GetProviderConfig p (Name prov) = Some cfg"
    and "\<forall>n. cfg ''priority'' \<noteq> Some (IntV n)"
    and "Priority prov = Some d"
  shows "resolvePriority p prov = d"
  using assms by (auto simp: resolvePriority_def split: option.splits cfg_value.splits)

theorem config_without_priority_uses_declared_witness:
  "GetProviderConfig (SetProviderConfig newProvider ''provider2'' (Some keyValueConfig))
       (Name (mockProvider ''provider2'' 60)) = Some keyValueConfig
   \<and> (\<forall>n. keyValueConfig ''priority'' \<noteq> Some (IntV n))
   \<and> Priority (mockProvider ''provider2'' 60) = Some 60
   \<and> resolvePriority (SetProviderConfig newProvider ''provider2'' (Some keyValueConfig))
       (mockProvider ''provider2'' 60) = 60"
proof -
  let ?p = "SetProviderConfig newProvider ''provider2'' (Some keyValueConfig)"
  have a: "GetProviderConfig ?p (Name (mockProvider ''provider2'' 60)) = Some keyValueConfig"
    and b: "\<forall>n. keyValueConfig ''priority'' \<noteq> Some (IntV n)"
    and c: "Priority (mockProvider ''provider2'' 60) = Some 60"
    by (simp_all add: loader_defs provider_defs)
  from config_without_priority_uses_declared [OF a b c] a b c show ?thesis
    by blast
qed

section \<open>Disabled providers\<close>



section \<open>The registry\<close>

text \<open>
  C8. \<^verbatim>\<open>RegisterGlobalProvider\<close> panics exactly when the registry already holds a provider
  of the same name, and then leaves the registry as it was; with a fresh name it appends the
  provider, so the registry grows by one entry at its end.
\<close>

theorem RegisterGlobalProvider_panics_iff_duplicate:
  "(fst (RegisterGlobalProvider gs p) \<noteq> None \<longleftrightarrow> (\<exists>q \<in> set gs. Name q = Name p))
   \<and> (fst (RegisterGlobalProvider gs p) \<noteq> None \<longrightarrow> snd (RegisterGlobalProvider gs p) = gs)
   \<and> (fst (RegisterGlobalProvider gs p) = None \<longrightarrow>
        snd (RegisterGlobalProvider gs p) = gs @ [p]
        \<and> length (snd (RegisterGlobalProvider gs p)) = length gs + 1)"
proof -
  have "findDuplicate gs p \<noteq> None \<longleftrightarrow> (\<exists>q \<in> set gs. Name q = Name p)"
    by (induction gs) simp_all
  then show ?thesis
    by (auto simp: RegisterGlobalProvider_def split: option.splits)
qed

theorem RegisterGlobalProvider_panics_iff_duplicate_witness:
  "(\<exists>q \<in> set [mockProvider ''duplicate'' 1]. Name q = Name (mockProvider ''duplicate'' 2))
   \<and> fst (RegisterGlobalProvider [mockProvider ''duplicate'' 1] (mockProvider ''duplicate'' 2))
       \<noteq> None
   \<and> snd (RegisterGlobalProvider [mockProvider ''duplicate'' 1] (mockProvider ''duplicate'' 2))
       = [mockProvider ''duplicate'' 1]
   \<and> \<not> (\<exists>q \<in> set [mockProvider ''test1'' 1]. Name q = Name (mockProvider ''test2'' 2))
   \<and> fst (RegisterGlobalProvider [mockProvider ''test1'' 1] (mockProvider ''test2'' 2)) = None
   \<and> snd (RegisterGlobalProvider [mockProvider ''test1'' 1] (mockProvider ''test2'' 2))
       = [mockProvider ''test1'' 1] @ [mockProvider ''test2'' 2]"
proof -
  have dup: "\<exists>q \<in> set [mockProvider ''duplicate'' 1]. Name q = Name (mockProvider ''duplicate'' 2)"
    by (simp add: mockProvider_def)
  have fresh: "\<not> (\<exists>q \<in> set [mockProvider ''test1'' 1]. Name q = Name (mockProvider ''test2'' 2))"
    by (simp add: mockProvider_def)
  show ?thesis
    using dup fresh
      RegisterGlobalProvider_panics_iff_duplicate
        [of "[mockProvider ''duplicate'' 1]" "mockProvider ''duplicate'' 2"]
      RegisterGlobalProvider_panics_iff_duplicate
        [of "[mockProvider ''test1'' 1]" "mockProvider ''test2'' 2"]
    by blast
qed

section \<open>What a load leaves alone\<close>



lemma sameLoaderAndRegistry_loader:
  "sameLoaderAndRegistry s t \<Longrightarrow> sharedLoader t = sharedLoader s"
  by (cases "sharedLoader s"; cases "sharedLoader t") (simp add: sameLoaderAndRegistry_def)




subsection \<open>Confined callbacks\<close>










subsection \<open>The loader's maps and the registry\<close>





section \<open>Failures\<close>

lemma bootPhase_append:
  "bootPhase (pre @ rest) s =
     (case bootPhase pre s of
        (None, s1) \<Rightarrow> bootPhase rest s1
      | (Some err, s1) \<Rightarrow> (Some err, s1))"
  by (induction pre arbitrary: s) (auto split: prod.splits option.splits)

lemma bootFailStart_registered:
  "registerPhase
     (sortProvidersByPriority (loader (bootFailStart optional))
        (globalProviders (bootFailStart optional)))
     [] (bootFailStart optional)
   = (Inr ([] @ bootFailing ''flaky'' optional # [mockProvider ''next'' 100]),
      bootFailRegistered optional)"
  by (simp add: bootFailStart_def bootFailRegistered_def run_defs loader_defs provider_defs)

lemma bootFailStart_failed:
  "callBoot (bootFailing ''flaky'' optional) (bootFailRegistered optional)
     = (Some ''boot error'', bootFailFailed optional)"
  by (simp add: bootFailStart_def bootFailRegistered_def bootFailFailed_def run_defs
      provider_defs)

lemma bootFailStart_continued:
  "bootPhase [mockProvider ''next'' 100] (bootFailFailed optional) = (None, bootFailFinal optional)"
  by (simp add: bootFailStart_def bootFailFailed_def bootFailFinal_def run_defs provider_defs)

text \<open>
  C6. Let the boot phase reach a provider, the providers before it booted or failed as
  optional ones, and let its \<^verbatim>\<open>Boot\<close> return an error. If the provider has the optional
  capability and \<^verbatim>\<open>IsOptional()\<close> is true, \<^verbatim>\<open>LoadProviders\<close> goes on exactly as the boot
  phase over the providers after it does: the failure gives no error, the next providers are
  booted in their order, and if none of them fails fatally, all of them; an error it still
  returns comes from one of them that is not optional. Otherwise (no
  capability, or \<^verbatim>\<open>IsOptional()\<close> false) \<^verbatim>\<open>LoadProviders\<close> returns at once the error with the
  provider's name and the cause; the failed call is the last one, so no later provider is
  booted.
\<close>

theorem boot_failure_optional_or_fatal:
  assumes "registerPhase (sortProvidersByPriority (loader s) (globalProviders s)) [] s
             = (Inr (pre @ prov # post), s0)"
    and "bootPhase pre s0 = (None, s1)"
    and "callBoot prov s1 = (Some err, s2)"
  shows "calls s2 = calls s1 @ [BootCall (Name prov) (Some err)]
    \<and> bootCalls (newCalls s s2) = map Name (pre @ [prov])
    \<and> (IsOptional prov = Some True \<longrightarrow>
         LoadProviders s = bootPhase post s2
         \<and> (\<forall>r s'. bootPhase post s2 = (r, s') \<longrightarrow>
              (\<exists>k \<le> length post. newCalls s s' = newCalls s s2 @ newCalls s2 s'
                 \<and> bootCalls (newCalls s2 s') = map Name (take k post)
                 \<and> (post \<noteq> [] \<longrightarrow> 0 < k) \<and> (r = None \<longrightarrow> k = length post))
              \<and> (\<forall>e. r = Some e \<longrightarrow>
                   (\<exists>q \<in> set post. \<exists>cause. e = BootFailed (Name q) cause
                      \<and> IsOptional q \<noteq> Some True))))
    \<and> (IsOptional prov \<noteq> Some True \<longrightarrow>
         LoadProviders s = (Some (BootFailed (Name prov) err), s2))"
proof -
  have load: "LoadProviders s = bootPhase (pre @ prov # post) s0"
    using assms(1) by (simp add: LoadProviders_def)
  have split: "bootPhase (pre @ prov # post) s0 = bootPhase (prov # post) s1"
    using assms(2) by (simp add: bootPhase_append)
  have c2: "calls s2 = calls s1 @ [BootCall (Name prov) (Some err)]"
    using callBoot_effect [OF assms(3)] by simp
  from registerPhase_calls [OF assms(1)] obtain phase1 where
    p1: "calls s0 = calls s @ phase1" "\<forall>e \<in> set phase1. \<not> isBoot e"
    by blast
  from bootPhase_calls [OF assms(2)] obtain before where
    b: "calls s1 = calls s0 @ before" "\<forall>e \<in> set before. isBoot e"
      "map eventName before = map Name pre"
    by auto
  have n2: "newCalls s s2 = phase1 @ before @ [BootCall (Name prov) (Some err)]"
    using p1(1) b(1) c2 by (simp add: newCalls_def)
  have boots: "bootCalls (newCalls s s2) = map Name (pre @ [prov])"
    unfolding n2 using p1(2) b(2,3)
    by (simp add: bootCalls_append bootCalls_no_boot bootCalls_all_boot)
  have later: "\<exists>k \<le> length post. newCalls s s' = newCalls s s2 @ newCalls s2 s'
                 \<and> bootCalls (newCalls s2 s') = map Name (take k post)
                 \<and> (post \<noteq> [] \<longrightarrow> 0 < k) \<and> (r = None \<longrightarrow> k = length post)"
    if "bootPhase post s2 = (r, s')" for r s'
  proof -
    from bootPhase_calls [OF that] obtain new k where
      n: "calls s' = calls s2 @ new" "\<forall>e \<in> set new. isBoot e" "k \<le> length post"
        "map eventName new = map Name (take k post)" "post \<noteq> [] \<longrightarrow> 0 < k"
        "r = None \<longrightarrow> k = length post"
      by blast
    have "newCalls s2 s' = new" "newCalls s s' = newCalls s s2 @ new"
      using n(1) n2 p1(1) b(1) c2 by (simp_all add: newCalls_def)
    with n show ?thesis
      by (intro exI [of _ k]) (simp add: bootCalls_all_boot)
  qed
  have "LoadProviders s = bootPhase post s2" if "IsOptional prov = Some True"
    using that assms(3) load split by simp
  moreover have "LoadProviders s = (Some (BootFailed (Name prov) err), s2)"
    if "IsOptional prov \<noteq> Some True"
    using that assms(3) load split by simp
  ultimately show ?thesis
    using c2 boots later bootPhase_error [of post s2] by blast
qed

theorem boot_failure_optional_or_fatal_witness:
  "IsOptional (bootFailing ''flaky'' (Some True)) = Some True
   \<and> LoadProviders (bootFailStart (Some True))
       = bootPhase [mockProvider ''next'' 100] (bootFailFailed (Some True))
   \<and> LoadProviders (bootFailStart (Some True)) = (None, bootFailFinal (Some True))
   \<and> bootCalls (newCalls (bootFailStart (Some True)) (bootFailFailed (Some True))) = [''flaky'']
   \<and> bootCalls (newCalls (bootFailFailed (Some True)) (bootFailFinal (Some True))) = [''next'']
   \<and> IsOptional (bootFailing ''flaky'' (Some False)) \<noteq> Some True
   \<and> LoadProviders (bootFailStart (Some False))
       = (Some (BootFailed ''flaky'' ''boot error''), bootFailFailed (Some False))
   \<and> bootCalls (newCalls (bootFailStart (Some False)) (bootFailFailed (Some False))) = [''flaky'']"
proof -
  have booted: "bootPhase [] (bootFailRegistered optional) = (None, bootFailRegistered optional)"
    for optional by simp
  have names: "Name (bootFailing ''flaky'' optional) = ''flaky''"
    "Name (mockProvider ''next'' 100) = ''next''" for optional
    by (simp_all add: provider_defs)
  have soft: "IsOptional (bootFailing ''flaky'' (Some True)) = Some True"
    and hard: "IsOptional (bootFailing ''flaky'' (Some False)) \<noteq> Some True"
    by (simp_all add: provider_defs)
  note opt = boot_failure_optional_or_fatal
    [OF bootFailStart_registered booted bootFailStart_failed, of "Some True"]
  note req = boot_failure_optional_or_fatal
    [OF bootFailStart_registered booted bootFailStart_failed, of "Some False"]
  from opt soft have run: "LoadProviders (bootFailStart (Some True))
      = bootPhase [mockProvider ''next'' 100] (bootFailFailed (Some True))"
    by blast
  from opt soft bootFailStart_continued [of "Some True"] obtain k where
    "k \<le> length [mockProvider ''next'' 100]" "0 < k"
    "bootCalls (newCalls (bootFailFailed (Some True)) (bootFailFinal (Some True)))
       = map Name (take k [mockProvider ''next'' 100])"
    by blast
  then have next_boot:
    "bootCalls (newCalls (bootFailFailed (Some True)) (bootFailFinal (Some True))) = [''next'']"
    by (cases k) (simp_all add: names)
  from req hard have fatal: "LoadProviders (bootFailStart (Some False))
      = (Some (BootFailed ''flaky'' ''boot error''), bootFailFailed (Some False))"
    by (simp add: names)
  from opt req have
    "bootCalls (newCalls (bootFailStart (Some True)) (bootFailFailed (Some True))) = [''flaky'']"
    "bootCalls (newCalls (bootFailStart (Some False)) (bootFailFailed (Some False))) = [''flaky'']"
    by (simp_all add: names)
  with soft hard run fatal next_boot bootFailStart_continued [of "Some True"] show ?thesis
    by simp
qed

text \<open>
  C7. When a \<^verbatim>\<open>Configure\<close> or a \<^verbatim>\<open>Register\<close> call of a run returns an error, it is the last
  call of the run: no provider is configured or registered after it, none is booted (there
  is no \<^verbatim>\<open>Boot\<close> call before it either), and nothing is called to undo what the calls
  before it, all successful, have done. \<^verbatim>\<open>LoadProviders\<close> returns the error with the name of
  that provider and the cause.
\<close>

theorem register_phase_fails_fast:
  assumes "LoadProviders s = (r, s')"
    and "newCalls s s' = before @ ev # after"
    and "ev = ConfigureCall n cfg (Some err) \<or> ev = RegisterCall n (Some err)"
  shows "after = [] \<and> (\<forall>e \<in> set before. \<not> isBoot e \<and> eventResult e = None)
    \<and> (ev = ConfigureCall n cfg (Some err) \<longrightarrow> r = Some (ConfigureFailed n err))
    \<and> (ev = RegisterCall n (Some err) \<longrightarrow> r = Some (RegisterFailed n err))"
  using assms(1)
proof (cases rule: LoadProviders_cases)
  case (phase1_failed e1)
  from registerPhase_calls [OF phase1_failed(1)] have
    nb: "\<forall>e \<in> set (newCalls s s'). \<not> isBoot e"
    by (auto simp: newCalls_def)
  from registerPhase_failure [OF phase1_failed(1)] obtain b' ev' where
    f: "newCalls s s' = b' @ [ev']" "\<forall>e \<in> set b'. eventResult e = None"
      "(\<exists>n cfg e. ev' = ConfigureCall n cfg (Some e) \<and> e1 = ConfigureFailed n e)
        \<or> (\<exists>n e. ev' = RegisterCall n (Some e) \<and> e1 = RegisterFailed n e)"
    by blast
  have ev: "eventResult ev = Some err"
    using assms(3) by auto
  have after: "after = []"
  proof (cases after rule: rev_cases)
    case Nil
    then show ?thesis .
  next
    case (snoc as a)
    with assms(2) f(1) have "b' = before @ ev # as" by simp
    with f(2) ev show ?thesis by simp
  qed
  with assms(2) f(1) have same: "b' = before" "ev' = ev" by simp_all
  show ?thesis
    using after same f(2,3) nb assms(2,3) phase1_failed(2) by auto
next
  case (phase1_done regs s1)
  from registerPhase_calls [OF phase1_done(1)] obtain phase1 where
    p1: "calls s1 = calls s @ phase1"
    by blast
  from registerPhase_success [OF phase1_done(1)] p1 have
    ok: "\<forall>e \<in> set phase1. eventResult e = None"
    by (simp add: newCalls_def)
  from bootPhase_calls [OF phase1_done(2)] obtain phase2 where
    p2: "calls s' = calls s1 @ phase2" "\<forall>e \<in> set phase2. isBoot e"
    by auto
  have "newCalls s s' = phase1 @ phase2"
    using p1 p2(1) by (simp add: newCalls_def)
  with assms(2) have "ev \<in> set phase1 \<or> ev \<in> set phase2"
    by (metis in_set_conv_decomp Un_iff set_append)
  with ok p2(2) assms(3) show ?thesis by auto
qed

theorem register_phase_fails_fast_witness:
  "LoadProviders registerFailStart
     = (Some (RegisterFailed ''failing'' ''register error''), registerFailFinal)
   \<and> newCalls registerFailStart registerFailFinal
       = [RegisterCall ''first'' None] @ RegisterCall ''failing'' (Some ''register error'') # []
   \<and> LoadProviders configureFailStart
       = (Some (ConfigureFailed ''failing'' ''configure error''), configureFailFinal)
   \<and> newCalls configureFailStart configureFailFinal
       = [RegisterCall ''early'' None]
           @ ConfigureCall ''failing'' keyValueConfig (Some ''configure error'') # []
   \<and> \<not> isBoot (RegisterCall ''first'' None) \<and> eventResult (RegisterCall ''first'' None) = None
   \<and> \<not> isBoot (RegisterCall ''early'' None) \<and> eventResult (RegisterCall ''early'' None) = None"
proof -
  have reg: "newCalls registerFailStart registerFailFinal
      = [RegisterCall ''first'' None] @ RegisterCall ''failing'' (Some ''register error'') # []"
    by (simp add: newCalls_def registerFailStart_def registerFailFinal_def startState_def)
  have cfg: "newCalls configureFailStart configureFailFinal
      = [RegisterCall ''early'' None]
          @ ConfigureCall ''failing'' keyValueConfig (Some ''configure error'') # []"
    by (simp add: newCalls_def configureFailStart_def configureFailFinal_def startState_def)
  from register_phase_fails_fast [OF registerFailStart_run reg]
  have "\<forall>e \<in> set [RegisterCall ''first'' None]. \<not> isBoot e \<and> eventResult e = None"
    by blast
  moreover from register_phase_fails_fast [OF configureFailStart_run cfg]
  have "\<forall>e \<in> set [RegisterCall ''early'' None]. \<not> isBoot e \<and> eventResult e = None"
    by blast
  ultimately show ?thesis
    using reg cfg registerFailStart_run configureFailStart_run by simp
qed

section \<open>Configuration\<close>

lemma append_eq_mid:
  assumes "xs @ ys = before @ x # after" and "x \<notin> set ys"
  shows "\<exists>a1. xs = before @ x # a1 \<and> after = a1 @ ys"
proof -
  from assms(1) obtain us where
    us: "xs = before @ us \<and> us @ ys = x # after \<or> xs @ us = before \<and> ys = us @ x # after"
    by (auto simp: append_eq_append_conv2)
  then show ?thesis
  proof
    assume a: "xs = before @ us \<and> us @ ys = x # after"
    show ?thesis
    proof (cases us)
      case Nil
      with a assms(2) show ?thesis by auto
    next
      case (Cons u us')
      with a show ?thesis by auto
    qed
  next
    assume "xs @ us = before \<and> ys = us @ x # after"
    with assms(2) show ?thesis by auto
  qed
qed

lemma configureThenRegister_Nil: "configureThenRegister []"
  by (simp add: configureThenRegister_def)

lemma configureThenRegister_failed: "configureThenRegister [ConfigureCall n cfg (Some e)]"
  by (auto simp: configureThenRegister_def Cons_eq_append_conv)

lemma configureThenRegister_Register:
  "configureThenRegister es \<Longrightarrow> configureThenRegister (RegisterCall n r # es)"
  unfolding configureThenRegister_def by (simp add: Cons_eq_append_conv) blast

lemma configureThenRegister_Configure:
  "configureThenRegister es \<Longrightarrow> configureThenRegister (ConfigureCall n cfg None # RegisterCall n r # es)"
  unfolding configureThenRegister_def by (simp add: Cons_eq_append_conv) blast

lemma configureThenRegister_boots:
  assumes "configureThenRegister es" and "\<forall>e \<in> set bs. isBoot e"
  shows "configureThenRegister (es @ bs)"
  unfolding configureThenRegister_def
proof (intro allI impI)
  fix before n cfg after
  assume eq: "es @ bs = before @ ConfigureCall n cfg None # after"
  have "ConfigureCall n cfg None \<notin> set bs"
    using assms(2) by auto
  from append_eq_mid [OF eq this] obtain a1 where
    a1: "es = before @ ConfigureCall n cfg None # a1" "after = a1 @ bs"
    by blast
  from assms(1) a1(1) obtain res a' where "a1 = RegisterCall n res # a'"
    unfolding configureThenRegister_def by blast
  with a1(2) show "\<exists>res after'. after = RegisterCall n res # after'"
    by simp
qed

lemma registerAfterConfigure_Nil: "registerAfterConfigure S K []"
  by (simp add: registerAfterConfigure_def)

lemma registerAfterConfigure_failed: "registerAfterConfigure S K [ConfigureCall n cfg (Some e)]"
  by (auto simp: registerAfterConfigure_def Cons_eq_append_conv)

lemma registerAfterConfigure_mono:
  "registerAfterConfigure S K es \<Longrightarrow> (\<And>n. K' n \<Longrightarrow> K n) \<Longrightarrow> registerAfterConfigure S K' es"
  unfolding registerAfterConfigure_def by blast

lemma registerAfterConfigure_Register:
  assumes "registerAfterConfigure S K es" and "\<not> (S n \<noteq> None \<and> K n)"
  shows "registerAfterConfigure S K (RegisterCall n r # es)"
  unfolding registerAfterConfigure_def
proof (intro allI impI, elim conjE)
  fix before m res after cfg
  assume eq: "RegisterCall n r # es = before @ RegisterCall m res # after"
    and S: "S m = Some cfg" and K: "K m"
  show "\<exists>before'. before = before' @ [ConfigureCall m cfg None]"
  proof (cases before)
    case Nil
    with eq S K assms(2) show ?thesis by auto
  next
    case (Cons b bs)
    with eq have "es = bs @ RegisterCall m res # after" "b = RegisterCall n r" by simp_all
    with assms(1) S K obtain b' where "bs = b' @ [ConfigureCall m cfg None]"
      unfolding registerAfterConfigure_def by blast
    with Cons show ?thesis by simp
  qed
qed

lemma registerAfterConfigure_Configure:
  assumes "registerAfterConfigure S K es" and "S n = Some cfg"
  shows "registerAfterConfigure S K (ConfigureCall n cfg None # RegisterCall n r # es)"
  unfolding registerAfterConfigure_def
proof (intro allI impI, elim conjE)
  fix before m res after cfg'
  assume eq: "ConfigureCall n cfg None # RegisterCall n r # es = before @ RegisterCall m res # after"
    and S: "S m = Some cfg'" and K: "K m"
  show "\<exists>before'. before = before' @ [ConfigureCall m cfg' None]"
  proof (cases before)
    case Nil
    with eq show ?thesis by simp
  next
    case (Cons b bs)
    note outer = this
    with eq have bs: "RegisterCall n r # es = bs @ RegisterCall m res # after"
      and b: "b = ConfigureCall n cfg None" by simp_all
    show ?thesis
    proof (cases bs)
      case Nil
      with bs have "m = n" by simp
      with S assms(2) have "cfg' = cfg" by simp
      with outer Nil b \<open>m = n\<close> show ?thesis by simp
    next
      case (Cons c cs)
      with bs have "es = cs @ RegisterCall m res # after" by simp
      with assms(1) S K obtain b' where "cs = b' @ [ConfigureCall m cfg' None]"
        unfolding registerAfterConfigure_def by blast
      with outer Cons show ?thesis by simp
    qed
  qed
qed

lemma registerAfterConfigure_boots:
  assumes "registerAfterConfigure S K es" and "\<forall>e \<in> set bs. isBoot e"
  shows "registerAfterConfigure S K (es @ bs)"
  unfolding registerAfterConfigure_def
proof (intro allI impI, elim conjE)
  fix before n res after cfg
  assume eq: "es @ bs = before @ RegisterCall n res # after"
    and S: "S n = Some cfg" and K: "K n"
  have "RegisterCall n res \<notin> set bs"
    using assms(2) by auto
  from append_eq_mid [OF eq this] obtain a1 where
    "es = before @ RegisterCall n res # a1"
    by blast
  with assms(1) S K show "\<exists>before'. before = before' @ [ConfigureCall n cfg None]"
    unfolding registerAfterConfigure_def by blast
qed

lemma configureStep_cases [consumes 1, case_names not_called called]:
  assumes "configureStep prov s = (c, s1)"
  obtains
    "s1 = s" and "c = None"
      and "Configure prov = None \<or> GetProviderConfig (loader s) (Name prov) = None"
  | configure cfg where "Configure prov = Some configure"
      and "GetProviderConfig (loader s) (Name prov) = Some cfg"
      and "calls s1 = calls s @ [ConfigureCall (Name prov) cfg c]"
      and "loader s1 = loader s"
  using assms
  by (auto simp: configureStep_def callConfigure_def Let_def split: option.splits)


lemma registerPhase_turn [consumes 1, case_names skip plain_failed plain configure_failed
    configured_failed configured]:
  assumes "registerPhase (prov # rest) acc s = (q, s')"
  obtains
    "\<not> IsProviderEnabled (loader s) (Name prov)" and "registerPhase rest acc s = (q, s')"
  | err where "IsProviderEnabled (loader s) (Name prov)"
      and "Configure prov = None \<or> GetProviderConfig (loader s) (Name prov) = None"
      and "newCalls s s' = [RegisterCall (Name prov) (Some err)]"
      and "q = Inl (RegisterFailed (Name prov) err)"
  | s2 where "IsProviderEnabled (loader s) (Name prov)"
      and "Configure prov = None \<or> GetProviderConfig (loader s) (Name prov) = None"
      and "loader s2 = loader s" and "registerPhase rest (acc @ [prov]) s2 = (q, s')"
      and "newCalls s s' = RegisterCall (Name prov) None # newCalls s2 s'"
  | configure cfg err where "IsProviderEnabled (loader s) (Name prov)"
      and "Configure prov = Some configure"
      and "GetProviderConfig (loader s) (Name prov) = Some cfg"
      and "newCalls s s' = [ConfigureCall (Name prov) cfg (Some err)]"
      and "q = Inl (ConfigureFailed (Name prov) err)"
  | configure cfg err where "IsProviderEnabled (loader s) (Name prov)"
      and "Configure prov = Some configure"
      and "GetProviderConfig (loader s) (Name prov) = Some cfg"
      and "newCalls s s' = [ConfigureCall (Name prov) cfg None, RegisterCall (Name prov) (Some err)]"
      and "q = Inl (RegisterFailed (Name prov) err)"
  | configure cfg s2 where "IsProviderEnabled (loader s) (Name prov)"
      and "Configure prov = Some configure"
      and "GetProviderConfig (loader s) (Name prov) = Some cfg"
      and "loader s2 = loader s" and "registerPhase rest (acc @ [prov]) s2 = (q, s')"
      and "newCalls s s'
             = ConfigureCall (Name prov) cfg None # RegisterCall (Name prov) None # newCalls s2 s'"
  using assms
proof (cases rule: registerPhase_Cons_cases)
  case skip
  with that(1) show ?thesis by simp
next
  case (configure_failed err s1)
  from configure_failed(2) show ?thesis
  proof (cases rule: configureStep_cases)
    case not_called
    then show ?thesis by simp
  next
    case (called configure cfg)
    with configure_failed that(4) show ?thesis by (simp add: newCalls_def)
  qed
next
  case (register_failed err s1 s2)
  note r = callRegister_effect [OF register_failed(3)]
  from register_failed(2) show ?thesis
  proof (cases rule: configureStep_cases)
    case not_called
    with register_failed r that(2) show ?thesis by (simp add: newCalls_def)
  next
    case (called configure cfg)
    with register_failed r that(5) show ?thesis by (simp add: newCalls_def)
  qed
next
  case (registered s1 s2)
  note r = callRegister_effect [OF registered(3)]
  from registerPhase_calls [OF registered(4)] obtain new where new: "calls s' = calls s2 @ new"
    by blast
  then have n2: "newCalls s2 s' = new" by (simp add: newCalls_def)
  from registered(2) show ?thesis
  proof (cases rule: configureStep_cases)
    case not_called
    with registered r new n2 that(3) [of s2] show ?thesis by (simp add: newCalls_def)
  next
    case (called configure cfg)
    with registered r new n2 that(6) [of configure cfg s2] show ?thesis
      by (simp add: newCalls_def)
  qed
qed

lemma registerPhase_configureThenRegister:
  assumes "registerPhase ps acc s = (q, s')"
  shows "configureThenRegister (newCalls s s')"
  using assms
proof (induction ps arbitrary: acc s)
  case Nil
  then show ?case by (simp add: newCalls_def configureThenRegister_Nil)
next
  case (Cons prov rest)
  from Cons.prems show ?case
  proof (cases rule: registerPhase_turn)
    case skip
    from Cons.IH [OF skip(2)] show ?thesis .
  next
    case (plain_failed err)
    then show ?thesis
      by (simp add: configureThenRegister_Register configureThenRegister_Nil)
  next
    case (plain s2)
    with Cons.IH [OF plain(4)] show ?thesis
      by (simp add: configureThenRegister_Register)
  next
    case (configure_failed configure cfg err)
    then show ?thesis by (simp add: configureThenRegister_failed)
  next
    case (configured_failed configure cfg err)
    then show ?thesis
      by (simp add: configureThenRegister_Configure configureThenRegister_Nil)
  next
    case (configured configure cfg s2)
    with Cons.IH [OF configured(5)] show ?thesis
      by (simp add: configureThenRegister_Configure)
  qed
qed

lemma registerPhase_registerAfterConfigure:
  assumes "registerPhase ps acc s = (q, s')"
  shows "registerAfterConfigure (GetProviderConfig (loader s))
           (\<lambda>n. \<forall>prov \<in> set ps. Name prov = n \<longrightarrow> Configure prov \<noteq> None) (newCalls s s')"
  using assms
proof (induction ps arbitrary: acc s)
  case Nil
  then show ?case by (simp add: newCalls_def registerAfterConfigure_Nil)
next
  case (Cons prov rest)
  let ?S = "GetProviderConfig (loader s)"
  let ?K = "\<lambda>n. \<forall>p \<in> set (prov # rest). Name p = n \<longrightarrow> Configure p \<noteq> None"
  have rest: "registerAfterConfigure ?S ?K (newCalls t s')"
    if "registerPhase rest acc' t = (q, s')" and "loader t = loader s" for acc' t
    using Cons.IH [OF that(1)] that(2)
    by (auto intro: registerAfterConfigure_mono)
  from Cons.prems show ?case
  proof (cases rule: registerPhase_turn)
    case skip
    from rest [OF skip(2)] show ?thesis by simp
  next
    case (plain_failed err)
    have no: "\<not> (?S (Name prov) \<noteq> None \<and> ?K (Name prov))"
      using plain_failed(2) by auto
    have "registerAfterConfigure ?S ?K [RegisterCall (Name prov) (Some err)]"
      using registerAfterConfigure_Nil no by (rule registerAfterConfigure_Register)
    with plain_failed(3) show ?thesis by simp
  next
    case (plain s2)
    have no: "\<not> (?S (Name prov) \<noteq> None \<and> ?K (Name prov))"
      using plain(2) by auto
    have "registerAfterConfigure ?S ?K (RegisterCall (Name prov) None # newCalls s2 s')"
      using rest [OF plain(4,3)] no by (rule registerAfterConfigure_Register)
    with plain(5) show ?thesis by simp
  next
    case (configure_failed configure cfg err)
    then show ?thesis by (simp add: registerAfterConfigure_failed)
  next
    case (configured_failed configure cfg err)
    have "registerAfterConfigure ?S ?K
        [ConfigureCall (Name prov) cfg None, RegisterCall (Name prov) (Some err)]"
      using registerAfterConfigure_Nil configured_failed(3)
      by (rule registerAfterConfigure_Configure)
    with configured_failed(4) show ?thesis by simp
  next
    case (configured configure cfg s2)
    have "registerAfterConfigure ?S ?K
        (ConfigureCall (Name prov) cfg None # RegisterCall (Name prov) None # newCalls s2 s')"
      using rest [OF configured(5,4)] configured(3)
      by (rule registerAfterConfigure_Configure)
    with configured(6) show ?thesis by simp
  qed
qed

lemma registerPhase_configure_only_stored:
  assumes "registerPhase ps acc s = (q, s')"
    and "ConfigureCall n cfg res \<in> set (newCalls s s')"
  shows "GetProviderConfig (loader s) n = Some cfg
         \<and> (\<exists>prov \<in> set ps. Name prov = n \<and> Configure prov \<noteq> None
               \<and> IsProviderEnabled (loader s) n)"
  using assms
proof (induction ps arbitrary: acc s)
  case Nil
  then show ?case by (simp add: newCalls_def)
next
  case (Cons prov rest)
  have rest: ?case
    if "registerPhase rest acc' t = (q, s')" and "loader t = loader s"
      and "ConfigureCall n cfg res \<in> set (newCalls t s')" for acc' t
    using Cons.IH [OF that(1,3)] that(2) by auto
  from Cons.prems(1) show ?case
  proof (cases rule: registerPhase_turn)
    case skip
    from rest [OF skip(2)] Cons.prems(2) show ?thesis by simp
  next
    case (plain_failed err)
    with Cons.prems(2) show ?thesis by simp
  next
    case (plain s2)
    with Cons.prems(2) rest [OF plain(4,3)] show ?thesis by simp
  next
    case (configure_failed configure cfg' err)
    with Cons.prems(2) show ?thesis by auto
  next
    case (configured_failed configure cfg' err)
    with Cons.prems(2) show ?thesis by auto
  next
    case (configured configure cfg' s2)
    with Cons.prems(2) rest [OF configured(5,4)] show ?thesis by auto
  qed
qed

lemma registerPhase_registers_enabled:
  assumes "registerPhase ps acc s = (Inr regs, s')"
    and "prov \<in> set ps" and "IsProviderEnabled (loader s) (Name prov)"
  shows "RegisterCall (Name prov) None \<in> set (newCalls s s')"
  using assms
proof (induction ps arbitrary: acc s)
  case Nil
  then show ?case by simp
next
  case (Cons p rest)
  from Cons.prems(1) show ?case
  proof (cases rule: registerPhase_turn)
    case skip
    with Cons.prems(2,3) have "prov \<in> set rest" by auto
    from Cons.IH [OF skip(2) this Cons.prems(3)] show ?thesis .
  next
    case (plain_failed err)
    then show ?thesis by simp
  next
    case (plain s2)
    show ?thesis
    proof (cases "prov = p")
      case True
      with plain(5) show ?thesis by simp
    next
      case False
      with Cons.prems(2) have "prov \<in> set rest" by simp
      from Cons.IH [OF plain(4) this] Cons.prems(3) plain(3,5) show ?thesis by simp
    qed
  next
    case (configure_failed configure cfg err)
    then show ?thesis by simp
  next
    case (configured_failed configure cfg err)
    then show ?thesis by simp
  next
    case (configured configure cfg s2)
    show ?thesis
    proof (cases "prov = p")
      case True
      with configured(6) show ?thesis by simp
    next
      case False
      with Cons.prems(2) have "prov \<in> set rest" by simp
      from Cons.IH [OF configured(5) this] Cons.prems(3) configured(4,6) show ?thesis by simp
    qed
  qed
qed


lemma GetProviderConfig_Some:
  "GetProviderConfig p n = Some cfg \<longleftrightarrow> ProviderConfigs p n = Some (Some cfg)"
  by (simp add: GetProviderConfig_def split: option.splits)

text \<open>
  C10. \<^verbatim>\<open>LoadProviders\<close> calls \<^verbatim>\<open>Configure\<close> exactly where a non-nil map is stored. In every
  run: a \<^verbatim>\<open>Configure\<close> call is made only on the name of an enabled provider with the
  \<^verbatim>\<open>Configure\<close> capability for which \<^verbatim>\<open>ProviderConfigs\<close> holds a non-nil map, and with that
  map; so a name with nothing stored, or with the nil map, never gets one. A successful
  \<^verbatim>\<open>Configure\<close> call is followed at once by \<^verbatim>\<open>Register\<close> on the same name. Every
  \<^verbatim>\<open>Register\<close> call on a name whose providers have the capability and for which a non-nil
  map is stored, be it empty, comes directly after the \<^verbatim>\<open>Configure\<close> call with that map. And
  when the register phase is not aborted, \<^verbatim>\<open>Register\<close> is called on every enabled provider.
\<close>

theorem configure_called_iff_stored_config:
  assumes "LoadProviders s = (r, s')"
  shows "(\<forall>n cfg res. ConfigureCall n cfg res \<in> set (newCalls s s')
            \<longrightarrow> ProviderConfigs (loader s) n = Some (Some cfg)
                \<and> (\<exists>prov \<in> set (globalProviders s). Name prov = n \<and> Configure prov \<noteq> None
                      \<and> IsProviderEnabled (loader s) n))
    \<and> (\<forall>n. ProviderConfigs (loader s) n = None \<or> ProviderConfigs (loader s) n = Some None
            \<longrightarrow> (\<forall>cfg res. ConfigureCall n cfg res \<notin> set (newCalls s s')))
    \<and> (\<forall>before n cfg after. newCalls s s' = before @ ConfigureCall n cfg None # after
            \<longrightarrow> (\<exists>res after'. after = RegisterCall n res # after'))
    \<and> (\<forall>before n res after cfg.
            newCalls s s' = before @ RegisterCall n res # after
            \<and> ProviderConfigs (loader s) n = Some (Some cfg)
            \<and> (\<forall>prov \<in> set (globalProviders s). Name prov = n \<longrightarrow> Configure prov \<noteq> None)
            \<longrightarrow> (\<exists>before'. before = before' @ [ConfigureCall n cfg None]))
    \<and> ((\<forall>n e. r \<noteq> Some (ConfigureFailed n e) \<and> r \<noteq> Some (RegisterFailed n e))
          \<longrightarrow> (\<forall>prov \<in> set (globalProviders s). IsProviderEnabled (loader s) (Name prov)
                 \<longrightarrow> RegisterCall (Name prov) None \<in> set (newCalls s s')))"
proof -
  let ?ps = "sortProvidersByPriority (loader s) (globalProviders s)"
  let ?S = "GetProviderConfig (loader s)"
  let ?K = "\<lambda>n. \<forall>prov \<in> set ?ps. Name prov = n \<longrightarrow> Configure prov \<noteq> None"
  have ps: "set ?ps = set (globalProviders s)"
    by (simp add: sortProvidersByPriority_sort_key)
  have facts: "configureThenRegister (newCalls s s')
      \<and> registerAfterConfigure ?S ?K (newCalls s s')
      \<and> (\<forall>n cfg res. ConfigureCall n cfg res \<in> set (newCalls s s')
            \<longrightarrow> ?S n = Some cfg
                \<and> (\<exists>prov \<in> set ?ps. Name prov = n \<and> Configure prov \<noteq> None
                      \<and> IsProviderEnabled (loader s) n))
      \<and> ((\<forall>n e. r \<noteq> Some (ConfigureFailed n e) \<and> r \<noteq> Some (RegisterFailed n e))
          \<longrightarrow> (\<forall>prov \<in> set ?ps. IsProviderEnabled (loader s) (Name prov)
                 \<longrightarrow> RegisterCall (Name prov) None \<in> set (newCalls s s')))"
    using assms
  proof (cases rule: LoadProviders_cases)
    case (phase1_failed err)
    from registerPhase_failure [OF phase1_failed(1)] phase1_failed(2)
    have "(\<exists>n e. r = Some (ConfigureFailed n e)) \<or> (\<exists>n e. r = Some (RegisterFailed n e))"
      by auto
    then show ?thesis
      using registerPhase_configureThenRegister [OF phase1_failed(1)]
        registerPhase_registerAfterConfigure [OF phase1_failed(1)]
        registerPhase_configure_only_stored [OF phase1_failed(1)]
      by blast
  next
    case (phase1_done regs s1)
    from registerPhase_calls [OF phase1_done(1)] obtain phase1 where
      p1: "calls s1 = calls s @ phase1"
      by blast
    from bootPhase_calls [OF phase1_done(2)] obtain phase2 where
      p2: "calls s' = calls s1 @ phase2" "\<forall>e \<in> set phase2. isBoot e"
      by auto
    have n1: "newCalls s s1 = phase1" and n: "newCalls s s' = phase1 @ phase2"
      using p1 p2(1) by (simp_all add: newCalls_def)
    have "configureThenRegister (phase1 @ phase2)"
      using registerPhase_configureThenRegister [OF phase1_done(1)] p2(2)
      unfolding n1 by (rule configureThenRegister_boots)
    moreover have "registerAfterConfigure ?S ?K (phase1 @ phase2)"
      using registerPhase_registerAfterConfigure [OF phase1_done(1)] p2(2)
      unfolding n1 by (rule registerAfterConfigure_boots)
    moreover have "?S m = Some cfg
        \<and> (\<exists>prov \<in> set ?ps. Name prov = m \<and> Configure prov \<noteq> None
              \<and> IsProviderEnabled (loader s) m)"
      if "ConfigureCall m cfg res \<in> set (phase1 @ phase2)" for m cfg res
    proof -
      from that p2(2) have "ConfigureCall m cfg res \<in> set (newCalls s s1)"
        unfolding n1 by auto
      from registerPhase_configure_only_stored [OF phase1_done(1) this] show ?thesis .
    qed
    moreover have "RegisterCall (Name prov) None \<in> set (phase1 @ phase2)"
      if "prov \<in> set ?ps" and "IsProviderEnabled (loader s) (Name prov)" for prov
      using registerPhase_registers_enabled [OF phase1_done(1) that] n1 by simp
    ultimately show ?thesis
      unfolding n by blast
  qed
  from facts have only: "ProviderConfigs (loader s) n = Some (Some cfg)
      \<and> (\<exists>prov \<in> set (globalProviders s). Name prov = n \<and> Configure prov \<noteq> None
            \<and> IsProviderEnabled (loader s) n)"
    if "ConfigureCall n cfg res \<in> set (newCalls s s')" for n cfg res
    using that unfolding ps GetProviderConfig_Some by blast
  then have never: "ConfigureCall n cfg res \<notin> set (newCalls s s')"
    if "ProviderConfigs (loader s) n = None \<or> ProviderConfigs (loader s) n = Some None"
    for n cfg res
    using that by auto
  from facts have adjacent: "\<exists>res after'. after = RegisterCall n res # after'"
    if "newCalls s s' = before @ ConfigureCall n cfg None # after" for before n cfg after
    using that unfolding configureThenRegister_def by blast
  from facts have preceded: "\<exists>before'. before = before' @ [ConfigureCall n cfg None]"
    if "newCalls s s' = before @ RegisterCall n res # after"
      and "ProviderConfigs (loader s) n = Some (Some cfg)"
      and "\<forall>prov \<in> set (globalProviders s). Name prov = n \<longrightarrow> Configure prov \<noteq> None"
    for before n res after cfg
    using that unfolding registerAfterConfigure_def ps GetProviderConfig_Some by blast
  from facts have registered: "RegisterCall (Name prov) None \<in> set (newCalls s s')"
    if "\<forall>n e. r \<noteq> Some (ConfigureFailed n e) \<and> r \<noteq> Some (RegisterFailed n e)"
      and "prov \<in> set (globalProviders s)" and "IsProviderEnabled (loader s) (Name prov)"
    for prov
    using that unfolding ps by blast
  show ?thesis
    using only never adjacent preceded registered by blast
qed


theorem configure_called_iff_stored_config_witness:
  "LoadProviders storedStart = (None, storedFinal)
   \<and> ProviderConfigs (loader storedStart) ''absent'' = None
   \<and> ProviderConfigs (loader storedStart) ''nil'' = Some None
   \<and> ProviderConfigs (loader storedStart) ''empty'' = Some (Some emptyConfig)
   \<and> newCalls storedStart storedFinal
       = [RegisterCall ''absent'' None, RegisterCall ''nil'' None,
          ConfigureCall ''empty'' emptyConfig None]
         @ RegisterCall ''empty'' None
         # [ConfigureCall ''keyed'' keyValueConfig None, RegisterCall ''keyed'' None,
            BootCall ''absent'' None, BootCall ''nil'' None, BootCall ''empty'' None,
            BootCall ''keyed'' None]
   \<and> ConfigureCall ''absent'' emptyConfig None \<notin> set (newCalls storedStart storedFinal)
   \<and> ConfigureCall ''nil'' emptyConfig None \<notin> set (newCalls storedStart storedFinal)
   \<and> RegisterCall ''absent'' None \<in> set (newCalls storedStart storedFinal)
   \<and> RegisterCall ''nil'' None \<in> set (newCalls storedStart storedFinal)
   \<and> (\<exists>before'. [RegisterCall ''absent'' None, RegisterCall ''nil'' None,
                     ConfigureCall ''empty'' emptyConfig None]
                    = before' @ [ConfigureCall ''empty'' emptyConfig None])"
proof -
  note inst = configure_called_iff_stored_config [OF storedStart_run]
  have stored: "ProviderConfigs (loader storedStart) ''absent'' = None"
    "ProviderConfigs (loader storedStart) ''nil'' = Some None"
    "ProviderConfigs (loader storedStart) ''empty'' = Some (Some emptyConfig)"
    by (simp_all add: storedStart_def startState_def loader_defs)
  have log: "newCalls storedStart storedFinal
       = [RegisterCall ''absent'' None, RegisterCall ''nil'' None,
          ConfigureCall ''empty'' emptyConfig None]
         @ RegisterCall ''empty'' None
         # [ConfigureCall ''keyed'' keyValueConfig None, RegisterCall ''keyed'' None,
            BootCall ''absent'' None, BootCall ''nil'' None, BootCall ''empty'' None,
            BootCall ''keyed'' None]"
    by (simp add: newCalls_def storedStart_def storedFinal_def startState_def)
  have configurable:
    "\<forall>prov \<in> set (globalProviders storedStart). Name prov = ''empty'' \<longrightarrow> Configure prov \<noteq> None"
    by (simp add: storedStart_def startState_def provider_defs)
  have members: "mockProvider ''absent'' 10 \<in> set (globalProviders storedStart)"
    "mockProvider ''nil'' 20 \<in> set (globalProviders storedStart)"
    by (simp_all add: storedStart_def startState_def)
  have enabled: "IsProviderEnabled (loader storedStart) (Name (mockProvider ''absent'' 10))"
    "IsProviderEnabled (loader storedStart) (Name (mockProvider ''nil'' 20))"
    by (simp_all add: storedStart_def startState_def loader_defs provider_defs)
  have names: "Name (mockProvider ''absent'' 10) = ''absent''"
    "Name (mockProvider ''nil'' 20) = ''nil''"
    by (simp_all add: provider_defs)
  have ok: "\<forall>n e. (None :: load_error option) \<noteq> Some (ConfigureFailed n e)
      \<and> (None :: load_error option) \<noteq> Some (RegisterFailed n e)"
    by simp
  from inst stored(1,2) have never:
    "ConfigureCall ''absent'' emptyConfig None \<notin> set (newCalls storedStart storedFinal)"
    "ConfigureCall ''nil'' emptyConfig None \<notin> set (newCalls storedStart storedFinal)"
    by blast+
  from inst ok members enabled have registered:
    "RegisterCall (Name (mockProvider ''absent'' 10)) None \<in> set (newCalls storedStart storedFinal)"
    "RegisterCall (Name (mockProvider ''nil'' 20)) None \<in> set (newCalls storedStart storedFinal)"
    by blast+
  from inst log stored(3) configurable have preceded:
    "\<exists>before'. [RegisterCall ''absent'' None, RegisterCall ''nil'' None,
                  ConfigureCall ''empty'' emptyConfig None]
                 = before' @ [ConfigureCall ''empty'' emptyConfig None]"
    by blast
  show ?thesis
    using storedStart_run stored log never registered [unfolded names] preceded by blast
qed

end
